theory Spec2Isabelle
  imports Main
begin

section \<open>Values and the helpers the cache imports\<close>

text \<open>
  The cache is generic in its value type \<open>T\<close>. The model fixes the JavaScript values the
  code distinguishes: \<open>undefined\<close>, \<open>null\<close>, strings, Node Buffers and any other object.
  A string is a list of its code units and a Buffer a list of its bytes, so \<open>length\<close> is
  the \<open>.length\<close> the code reads.
\<close>

datatype jsval = Undefined | Null | Str string | Buf string | Obj nat

text \<open>
  Modelled from the spec: \<open>is.value\<close> is imported from the package @toba/tools and is not
  under src; README.md gives it as "whether \<open>x\<close> is not \<open>undefined\<close> and not \<open>null\<close>".
\<close>

fun is_value :: "jsval \<Rightarrow> bool" where
  "is_value Undefined = False"
| "is_value Null = False"
| "is_value _ = True"

text \<open>
  Modelled from the spec: \<open>is.empty\<close> is imported from the package @toba/tools and is not
  under src; README.md gives it as "whether \<open>x\<close> is \<open>undefined\<close>, \<open>null\<close> or an empty
  string".
\<close>

fun is_empty :: "jsval \<Rightarrow> bool" where
  "is_empty Undefined = True"
| "is_empty Null = True"
| "is_empty (Str t) = (t = [])"
| "is_empty _ = False"

text \<open>\<open>byteSize\<close> of utility.ts: the length of a string or a Buffer, \<open>-1\<close> for the rest.\<close>

fun byteSize :: "jsval \<Rightarrow> int" where
  "byteSize (Str t) = int (length t)"
| "byteSize (Buf b) = int (length b)"
| "byteSize _ = - 1"

text \<open>\<open>Array.prototype.indexOf\<close>: the first position of \<open>x\<close>, \<open>-1\<close> when absent.\<close>

fun indexOf :: "'a list \<Rightarrow> 'a \<Rightarrow> int" where
  "indexOf [] x = - 1"
| "indexOf (y # ys) x =
     (if y = x then 0 else (let r = indexOf ys x in if r = - 1 then - 1 else r + 1))"

section \<open>Data model of cache.ts\<close>

record CacheItem =
  item_key :: string
  item_added :: int
  item_value :: jsval
  item_size :: int

text \<open>A threshold that is \<open>undefined\<close> is \<open>None\<close>.\<close>

record CachePolicy =
  maxItems :: "int option"
  maxAge :: "int option"
  maxBytes :: "int option"

datatype EventType = ItemsEvicted | KeyNotFound

datatype payload = Keys "string list" | Key string

text \<open>
  A JavaScript \<open>Map\<close> keeps its entries in insertion order; \<open>set\<close> on a key that exists
  replaces the value in place, \<open>delete\<close> drops the entry.
\<close>

type_synonym store = "(string \<times> CacheItem) list"

definition map_has :: "(string \<times> 'v) list \<Rightarrow> string \<Rightarrow> bool" where
  "map_has m k = (k \<in> set (map fst m))"

definition map_get :: "(string \<times> 'v) list \<Rightarrow> string \<Rightarrow> 'v option" where
  "map_get m k = map_of m k"

fun map_set :: "(string \<times> 'v) list \<Rightarrow> string \<Rightarrow> 'v \<Rightarrow> (string \<times> 'v) list" where
  "map_set [] k v = [(k, v)]"
| "map_set ((k', v') # m) k v =
     (if k' = k then (k, v) # m else (k', v') # map_set m k v)"

definition map_delete :: "(string \<times> 'v) list \<Rightarrow> string \<Rightarrow> (string \<times> 'v) list" where
  "map_delete m k = filter (\<lambda>e. fst e \<noteq> k) m"

definition map_values :: "store \<Rightarrow> CacheItem list" where
  "map_values m = map snd m"

text \<open>
  One call of \<open>events.emit\<close>: the event type, the payload, and the store a listener finds
  when it is called (listeners run inside \<open>emit\<close>, before it returns).
\<close>

record emitted =
  ev_type :: EventType
  ev_payload :: payload
  ev_store :: store

text \<open>
  The fields of class \<open>Cache\<close>, and the environment its methods read and write: the clock
  behind \<open>new Date().getTime()\<close>, the timeouts that are pending (handle and due time; every
  callback the cache registers is its own \<open>prune\<close>) and the next free timer handle.
  \<open>events\<close> is the list of \<open>emit\<close> calls made so far.
\<close>

record cache =
  items :: store
  policy :: CachePolicy
  evictTimer :: "nat option"
  canMeasureSize :: bool
  events :: "emitted list"
  clock :: int
  timers :: "(nat \<times> int) list"
  nextHandle :: nat

definition totalSize :: "store \<Rightarrow> string list \<Rightarrow> int" where
  "totalSize its except =
     foldl (\<lambda>total i. total + item_size i) 0
       (filter (\<lambda>i. indexOf except (item_key i) < 0) (map_values its))"

definition defaultPolicy :: CachePolicy where
  "defaultPolicy = \<lparr>maxItems = Some 0, maxAge = Some 0, maxBytes = Some 0\<rparr>"

text \<open>
  Modelled from the spec: \<open>merge\<close> is imported from the package @toba/tools and is not under
  src; the spec has the new policy "merged over defaults: any omitted field reverts to no
  limit", so a field the caller gives wins and a field left \<open>undefined\<close> takes the default.
\<close>

definition merge :: "CachePolicy \<Rightarrow> CachePolicy \<Rightarrow> CachePolicy" where
  "merge base additions =
     \<lparr>maxItems = (case maxItems additions of None \<Rightarrow> maxItems base | Some v \<Rightarrow> Some v),
      maxAge = (case maxAge additions of None \<Rightarrow> maxAge base | Some v \<Rightarrow> Some v),
      maxBytes = (case maxBytes additions of None \<Rightarrow> maxBytes base | Some v \<Rightarrow> Some v)\<rparr>"

definition emit :: "EventType \<Rightarrow> payload \<Rightarrow> cache \<Rightarrow> cache" where
  "emit ty ev s =
     s\<lparr>events := events s @ [\<lparr>ev_type = ty, ev_payload = ev, ev_store = items s\<rparr>]\<rparr>"

definition new_cache :: "CachePolicy \<Rightarrow> int \<Rightarrow> cache" where
  "new_cache p now =
     \<lparr>items = [], policy = merge defaultPolicy p, evictTimer = None,
      canMeasureSize = True, events = [], clock = now, timers = [], nextHandle = 1\<rparr>"

section \<open>Operations of class Cache\<close>

definition cache_length :: "cache \<Rightarrow> int" where
  "cache_length s = int (length (items s))"

definition cache_size :: "cache \<Rightarrow> int" where
  "cache_size s = (if canMeasureSize s then totalSize (items s) [] else - 1)"

text \<open>
  \<open>contains\<close> hands \<open>is.empty\<close> what \<open>items.get(key)\<close> returns: \<open>undefined\<close> or the
  \<open>CacheItem\<close> object itself, which is neither \<open>undefined\<close>, \<open>null\<close> nor a string.
\<close>

definition is_empty_entry :: "CacheItem option \<Rightarrow> bool" where
  "is_empty_entry e = (case e of None \<Rightarrow> True | Some i \<Rightarrow> False)"

definition contains :: "string \<Rightarrow> bool \<Rightarrow> cache \<Rightarrow> bool" where
  "contains k allowEmpty s =
     (map_has (items s) k \<and> (allowEmpty \<or> \<not> is_empty_entry (map_get (items s) k)))"

definition clearTimeout :: "nat \<Rightarrow> cache \<Rightarrow> cache" where
  "clearTimeout h s = s\<lparr>timers := filter (\<lambda>t. fst t \<noteq> h) (timers s)\<rparr>"

definition setTimeout :: "int \<Rightarrow> cache \<Rightarrow> nat \<times> cache" where
  "setTimeout delay s =
     (nextHandle s,
      s\<lparr>timers := timers s @ [(nextHandle s, clock s + delay)],
        nextHandle := Suc (nextHandle s)\<rparr>)"

definition schedulePrune :: "cache \<Rightarrow> cache" where
  "schedulePrune s =
     (let s1 = (case evictTimer s of Some h \<Rightarrow> clearTimeout h s | None \<Rightarrow> s);
          (h', s2) = setTimeout 10 s1
      in s2\<lparr>evictTimer := Some h'\<rparr>)"

definition add :: "string \<Rightarrow> jsval \<Rightarrow> cache \<Rightarrow> cache" where
  "add k v s =
     schedulePrune
       (if is_value v then
          (let (sz, s1) =
                 (if canMeasureSize s then
                    (let sz0 = byteSize v
                     in if sz0 = - 1 then (0, s\<lparr>canMeasureSize := False\<rparr>) else (sz0, s))
                  else (0, s))
           in s1\<lparr>items := map_set (items s1) k
                   \<lparr>item_key = k, item_added = clock s1, item_value = v, item_size = sz\<rparr>\<rparr>)
        else s)"

text \<open>
  In \<open>get\<close>, \<open>is.value(item)\<close> is asked of the same lookup result: it holds for a
  \<open>CacheItem\<close> and fails for \<open>undefined\<close>. \<open>silent\<close> defaults to \<open>false\<close>.
\<close>

definition get :: "string \<Rightarrow> bool \<Rightarrow> cache \<Rightarrow> jsval \<times> cache" where
  "get k silent s =
     (if map_has (items s) k then
        (case map_get (items s) k of
           Some item \<Rightarrow> (item_value item, s)
         | None \<Rightarrow> (Null, s))
      else (Null, if \<not> silent then emit KeyNotFound (Key k) s else s))"

definition remove :: "string \<Rightarrow> cache \<Rightarrow> cache" where
  "remove k s = s\<lparr>items := map_delete (items s) k\<rparr>"

definition clear :: "cache \<Rightarrow> cache" where
  "clear s = s\<lparr>items := []\<rparr>"

definition updatePolicy :: "CachePolicy \<Rightarrow> cache \<Rightarrow> cache" where
  "updatePolicy p s = schedulePrune (s\<lparr>policy := merge defaultPolicy p\<rparr>)"

section \<open>The prune pass\<close>

definition sorted_items :: "cache \<Rightarrow> CacheItem list" where
  "sorted_items s = sort_key item_added (map_values (items s))"

text \<open>Each pass works on the pair of locals \<open>(sorted, remove)\<close>, here \<open>(work, toRemove)\<close>.\<close>

definition agePass :: "cache \<Rightarrow> CacheItem list \<times> string list \<Rightarrow> CacheItem list \<times> string list" where
  "agePass s sr =
     (case sr of (work, toRemove) \<Rightarrow>
        (case maxAge (policy s) of
           None \<Rightarrow> (work, toRemove)
         | Some a \<Rightarrow>
             if a > 0 then
               (let oldest = clock s - a;
                    toRemove' = toRemove @ map item_key (filter (\<lambda>i. item_added i < oldest) work);
                    work' = filter (\<lambda>i. indexOf toRemove' (item_key i) = - 1) work
                in (work', toRemove'))
             else (work, toRemove)))"

definition countPass :: "cache \<Rightarrow> CacheItem list \<times> string list \<Rightarrow> CacheItem list \<times> string list" where
  "countPass s sr =
     (case sr of (work, toRemove) \<Rightarrow>
        (case maxItems (policy s) of
           None \<Rightarrow> (work, toRemove)
         | Some m \<Rightarrow>
             if m > 0 \<and> int (length work) > m then
               (let tooMany = int (length work) - m;
                    toRemove' = toRemove @ map item_key (take (nat tooMany) work);
                    work' = filter (\<lambda>i. indexOf toRemove' (item_key i) = - 1) work
                in (work', toRemove'))
             else (work, toRemove)))"

text \<open>
  The \<open>while\<close> loop of the byte pass. \<open>sorted.shift()\<close> on an empty array returns
  \<open>undefined\<close>, the body then does nothing and the loop goes round again with the same
  values: that run never ends, which is the value \<open>None\<close> here.
\<close>

partial_function (option) byteLoop ::
  "int \<Rightarrow> int \<Rightarrow> CacheItem list \<Rightarrow> string list \<Rightarrow> (CacheItem list \<times> string list) option" where
  "byteLoop mx remainingSize work toRemove =
     (if remainingSize > mx then
        (case work of
           [] \<Rightarrow> byteLoop mx remainingSize [] toRemove
         | item # rest \<Rightarrow> byteLoop mx (remainingSize - item_size item) rest (toRemove @ [item_key item]))
      else Some (work, toRemove))"

declare byteLoop.simps [code]

definition bytePass ::
  "cache \<Rightarrow> CacheItem list \<times> string list \<Rightarrow> (CacheItem list \<times> string list) option" where
  "bytePass s sr =
     (case sr of (work, toRemove) \<Rightarrow>
        (case maxBytes (policy s) of
           None \<Rightarrow> Some (work, toRemove)
         | Some mx \<Rightarrow>
             if mx > 0 \<and> canMeasureSize s then
               byteLoop mx (totalSize (items s) toRemove) work toRemove
             else Some (work, toRemove)))"

definition deleteAll :: "string list \<Rightarrow> cache \<Rightarrow> cache" where
  "deleteAll toRemove s = fold (\<lambda>k c. c\<lparr>items := map_delete (items c) k\<rparr>) toRemove s"

definition prune :: "cache \<Rightarrow> cache option" where
  "prune s =
     (if cache_length s > 0 \<and>
         (maxAge (policy s) \<noteq> Some 0 \<or> maxItems (policy s) \<noteq> Some 0 \<or>
          maxBytes (policy s) \<noteq> Some 0)
      then
        (case bytePass s (countPass s (agePass s (sorted_items s, []))) of
           None \<Rightarrow> None
         | Some (work, toRemove) \<Rightarrow>
             if length toRemove > 0 then
               Some (emit ItemsEvicted (Keys toRemove) (deleteAll toRemove s))
             else Some s)
      else Some s)"

section \<open>Timers firing and sequences of calls\<close>

text \<open>
  A pending timeout that fires leaves the pending list and runs its callback, \<open>prune\<close>.
  \<open>elapse d\<close> lets \<open>d\<close> milliseconds pass and fires what has come due.
\<close>

definition fireTimer :: "nat \<Rightarrow> cache \<Rightarrow> cache option" where
  "fireTimer h s =
     (if h \<in> set (map fst (timers s))
      then prune (s\<lparr>timers := filter (\<lambda>t. fst t \<noteq> h) (timers s)\<rparr>)
      else Some s)"

definition elapse :: "int \<Rightarrow> cache \<Rightarrow> cache option" where
  "elapse d s =
     (let s1 = s\<lparr>clock := clock s + d\<rparr>
      in fold (\<lambda>h r. Option.bind r (fireTimer h))
           (map fst (filter (\<lambda>t. snd t \<le> clock s1) (timers s1))) (Some s1))"

datatype op =
    Add string jsval
  | Get string bool
  | Remove string
  | Clear
  | UpdatePolicy CachePolicy
  | Prune
  | Elapse int

fun step :: "op \<Rightarrow> cache \<Rightarrow> cache option" where
  "step (Add k v) s = Some (add k v s)"
| "step (Get k silent) s = Some (snd (get k silent s))"
| "step (Remove k) s = Some (remove k s)"
| "step Clear s = Some (clear s)"
| "step (UpdatePolicy p) s = Some (updatePolicy p s)"
| "step Prune s = prune s"
| "step (Elapse d) s = elapse d s"

fun run :: "op list \<Rightarrow> cache \<Rightarrow> cache option" where
  "run [] s = Some s"
| "run (x # xs) s = Option.bind (step x s) (run xs)"

section \<open>CompressCache\<close>

text \<open>
  \<open>CompressCache\<close> extends \<open>Cache<Buffer>\<close>. The file that declares it carries its own
  copy of class \<open>Cache\<close>, whose \<open>add\<close> and \<open>contains\<close> read as those above and whose
  \<open>get(key)\<close> is \<open>get(key, false)\<close>; \<open>base\<close> holds the inherited fields.

  The methods are asynchronous. A promise is named by a number; \<open>settled\<close> lists the
  promises resolved so far with their values, in the order in which their \<open>resolve\<close>
  functions were called. \<open>zipQueue\<close> holds, for a key, the promises whose \<open>resolve\<close>
  functions were pushed. \<open>gzipCalls\<close> lists the texts handed to \<open>gzip\<close>, one per call;
  the position of a call in that list is its number. \<open>pending\<close> holds the calls of
  \<open>gzip\<close> that have not completed yet (number, key and text of the \<open>addText\<close> that
  waits for it), and \<open>rejected\<close> the \<open>addText\<close> promises that were rejected, by the
  number of their call, with the error. The loader is an asynchronous function of the
  environment: the methods only test whether one is set, and the text it produces arrives
  with the continuation.
\<close>

datatype error = TypeError | ZlibError

record ccache =
  base :: cache
  loader :: "(string \<Rightarrow> string) option"
  zipBuffer :: "(string \<times> string) list"
  zipQueue :: "(string \<times> nat list) list"
  nextPromise :: nat
  settled :: "(nat \<times> jsval) list"
  gzipCalls :: "string list"
  pending :: "(nat \<times> string \<times> string) list"
  rejected :: "(nat \<times> error) list"

text \<open>
  What a call returns: a promise already resolved with a value, one rejected, one that
  waits for a queued \<open>resolve\<close>, or one that waits for the loader.
\<close>

datatype outcome = Settled jsval | Rejected error | Awaits nat | AwaitsLoader string

definition new_ccache :: "(string \<Rightarrow> string) option \<Rightarrow> CachePolicy \<Rightarrow> int \<Rightarrow> ccache" where
  "new_ccache ld p now =
     \<lparr>base = new_cache p now, loader = ld, zipBuffer = [], zipQueue = [],
      nextPromise = 0, settled = [], gzipCalls = [], pending = [], rejected = []\<rparr>"

definition beginZip :: "string \<Rightarrow> string \<Rightarrow> ccache \<Rightarrow> ccache" where
  "beginZip k v s =
     s\<lparr>zipBuffer := map_set (zipBuffer s) k v, zipQueue := map_set (zipQueue s) k []\<rparr>"

text \<open>
  \<open>endZip\<close> returns the exception it throws, if any, with the state it leaves.
  \<open>queue.forEach\<close> on the \<open>undefined\<close> that \<open>zipQueue.get\<close> returns for a missing key
  throws, after the two \<open>delete\<close> calls; otherwise each \<open>resolve\<close> is called with the
  zipped buffer, in queue order.
\<close>

definition endZip :: "string \<Rightarrow> jsval \<Rightarrow> ccache \<Rightarrow> error option \<times> ccache" where
  "endZip k zipped s =
     (let s1 = s\<lparr>zipBuffer := map_delete (zipBuffer s) k\<rparr>;
          queue = map_get (zipQueue s1) k;
          s2 = s1\<lparr>zipQueue := map_delete (zipQueue s1) k\<rparr>
      in case queue of
           None \<Rightarrow> (Some TypeError, s2)
         | Some fns \<Rightarrow> (None, s2\<lparr>settled := settled s2 @ map (\<lambda>fn. (fn, zipped)) fns\<rparr>))"

text \<open>
  \<open>addText\<close> up to its \<open>await\<close>: the emptiness check, \<open>beginZip\<close> and the call of
  \<open>gzip\<close>, which is now pending. The result tells whether a compression was started.
\<close>

definition addText_begin :: "string \<Rightarrow> string \<Rightarrow> ccache \<Rightarrow> bool \<times> ccache" where
  "addText_begin k v s =
     (if is_empty (Str v) then (False, s)
      else (True, (beginZip k v s)
                    \<lparr>gzipCalls := gzipCalls s @ [v],
                     pending := pending s @ [(length (gzipCalls s), k, v)]\<rparr>))"

text \<open>
  \<open>addText\<close> after its \<open>await\<close>. \<open>gz\<close> is what \<open>gzip\<close> computes: the bytes, or
  \<open>None\<close> when zlib reports an error and the promise of \<open>gzip\<close> is rejected, which
  \<open>addText\<close> passes on. Otherwise \<open>endZip\<close>, then \<open>super.add\<close>.
\<close>

definition addText_end ::
  "(string \<Rightarrow> string option) \<Rightarrow> string \<Rightarrow> string \<Rightarrow> ccache \<Rightarrow> error option \<times> ccache" where
  "addText_end gz k v s =
     (case gz v of
        None \<Rightarrow> (Some ZlibError, s)
      | Some b \<Rightarrow>
          (let zipped = Buf b
           in case endZip k zipped s of
                (Some e, s1) \<Rightarrow> (Some e, s1)
              | (None, s1) \<Rightarrow> (None, s1\<lparr>base := add k zipped (base s1)\<rparr>)))"

text \<open>
  The pending call number \<open>j\<close> of \<open>gzip\<close> completes: the \<open>addText\<close> that waits for it
  runs to its end, and is recorded when it is rejected.
\<close>

definition gzip_done :: "(string \<Rightarrow> string option) \<Rightarrow> nat \<Rightarrow> ccache \<Rightarrow> ccache" where
  "gzip_done gz j s =
     (case find (\<lambda>jb. fst jb = j) (pending s) of
        None \<Rightarrow> s
      | Some jb \<Rightarrow>
          (let s1 = s\<lparr>pending := filter (\<lambda>jb. fst jb \<noteq> j) (pending s)\<rparr>;
               (e, s2) = addText_end gz (fst (snd jb)) (snd (snd jb)) s1
           in case e of
                None \<Rightarrow> s2
              | Some err \<Rightarrow> s2\<lparr>rejected := rejected s2 @ [(j, err)]\<rparr>))"

definition getZip :: "string \<Rightarrow> ccache \<Rightarrow> outcome \<times> ccache" where
  "getZip k s =
     (if contains k False (base s) then
        (let (v, b) = get k False (base s) in (Settled v, s\<lparr>base := b\<rparr>))
      else if map_has (zipQueue s) k then
        (case map_get (zipQueue s) k of
           Some fns \<Rightarrow>
             (Awaits (nextPromise s),
              s\<lparr>zipQueue := map_set (zipQueue s) k (fns @ [nextPromise s]),
                nextPromise := Suc (nextPromise s)\<rparr>)
         | None \<Rightarrow> (Rejected TypeError, s))
      else if \<not> Option.is_none (loader s) then (AwaitsLoader k, s)
      else (Settled Null, s))"

text \<open>
  The continuation of the loader branch of \<open>getZip\<close> once the loader has produced
  \<open>text\<close>: it starts \<open>addText\<close>; when that has finished, \<open>super.get(key)\<close> gives the value.
\<close>

definition getZip_loaded :: "string \<Rightarrow> string \<Rightarrow> ccache \<Rightarrow> bool \<times> ccache" where
  "getZip_loaded k text s = addText_begin k text s"

definition getZip_finish :: "string \<Rightarrow> ccache \<Rightarrow> outcome \<times> ccache" where
  "getZip_finish k s = (let (v, b) = get k False (base s) in (Settled v, s\<lparr>base := b\<rparr>))"

text \<open>
  \<open>unzip\<close> of a value. \<open>uz\<close> is what zlib's \<open>unzip\<close> computes on a buffer: the text,
  or \<open>None\<close> when the bytes are not compressed data and the promise is rejected. A value
  that is no buffer is refused with a \<open>TypeError\<close>.
\<close>

definition unzip :: "(string \<Rightarrow> string option) \<Rightarrow> jsval \<Rightarrow> outcome" where
  "unzip uz v =
     (case v of
        Buf b \<Rightarrow> (case uz b of Some t \<Rightarrow> Settled (Str t) | None \<Rightarrow> Rejected ZlibError)
      | _ \<Rightarrow> Rejected TypeError)"

text \<open>\<open>getText\<close> from the point where the promise of \<open>getZip\<close> has given \<open>bytes\<close>.\<close>

definition getText_resume ::
  "(string \<Rightarrow> string option) \<Rightarrow> string \<Rightarrow> jsval \<Rightarrow> ccache \<Rightarrow> outcome \<times> ccache" where
  "getText_resume uz k bytes s =
     (if bytes = Null then
        (if \<not> Option.is_none (loader s) then (AwaitsLoader k, s) else (Settled Null, s))
      else (unzip uz bytes, s))"

text \<open>
  \<open>getText\<close> after its loader has produced \<open>v\<close>: \<open>addText\<close> is started and not
  awaited, and \<open>v\<close> is returned.
\<close>

definition getText_loaded :: "string \<Rightarrow> string \<Rightarrow> ccache \<Rightarrow> outcome \<times> ccache" where
  "getText_loaded k v s = (Settled (Str v), snd (addText_begin k v s))"

text \<open>
  \<open>getText\<close>. When the promise of \<open>getZip\<close> is still pending, \<open>getText\<close> waits on the
  same event, and \<open>getText_resume\<close> is what it does next.
\<close>

definition getText :: "(string \<Rightarrow> string option) \<Rightarrow> string \<Rightarrow> ccache \<Rightarrow> outcome \<times> ccache" where
  "getText uz k s =
     (if map_has (zipBuffer s) k then
        (Settled (case map_get (zipBuffer s) k of Some t \<Rightarrow> Str t | None \<Rightarrow> Undefined), s)
      else
        (case getZip k s of
           (Settled bytes, s1) \<Rightarrow> getText_resume uz k bytes s1
         | (r, s1) \<Rightarrow> (r, s1)))"

subsection \<open>Schedules\<close>

text \<open>
  What can happen to a \<open>CompressCache\<close>, one event at a time: a call of \<open>addText\<close> (by
  the caller or by a loader continuation) runs up to its \<open>await\<close>; a pending \<open>gzip\<close>
  completes; \<open>getZip\<close> or \<open>getText\<close> is called; an inherited method is called or a
  timer fires (the steps of \<open>Cache\<close>; the \<open>super.get\<close> that ends the loader branch of
  \<open>getZip\<close> is one of them). A \<open>getText\<close> that resumes after a queued promise writes
  nothing unless it goes on to the loader and \<open>addText\<close>. A schedule is a list of events;
  \<open>crun\<close> runs it and returns what each \<open>getZip\<close> and \<open>getText\<close> call returned, in
  call order; it has no result when a \<open>prune\<close> among its steps does not return.
\<close>

datatype cevent =
    AddText string string
  | GzipDone nat
  | GetZip string
  | GetText string
  | Base op

fun cstep ::
  "(string \<Rightarrow> string option) \<Rightarrow> (string \<Rightarrow> string option) \<Rightarrow> cevent \<Rightarrow> ccache \<Rightarrow>
   (outcome option \<times> ccache) option" where
  "cstep gz uz (AddText k v) s = Some (None, snd (addText_begin k v s))"
| "cstep gz uz (GzipDone j) s = Some (None, gzip_done gz j s)"
| "cstep gz uz (GetZip k) s = (let (r, s1) = getZip k s in Some (Some r, s1))"
| "cstep gz uz (GetText k) s = (let (r, s1) = getText uz k s in Some (Some r, s1))"
| "cstep gz uz (Base x) s =
     (case step x (base s) of None \<Rightarrow> None | Some b \<Rightarrow> Some (None, s\<lparr>base := b\<rparr>))"

fun crun ::
  "(string \<Rightarrow> string option) \<Rightarrow> (string \<Rightarrow> string option) \<Rightarrow> cevent list \<Rightarrow> ccache \<Rightarrow>
   ((cevent \<times> outcome) list \<times> ccache) option" where
  "crun gz uz [] s = Some ([], s)"
| "crun gz uz (e # es) s =
     (case cstep gz uz e s of
        None \<Rightarrow> None
      | Some (r, s1) \<Rightarrow>
          (case crun gz uz es s1 of
             None \<Rightarrow> None
           | Some (log, s2) \<Rightarrow>
               Some ((case r of None \<Rightarrow> [] | Some res \<Rightarrow> [(e, res)]) @ log, s2)))"

text \<open>The promises that the \<open>getZip(k)\<close> calls of a log were told to wait for, in call order.\<close>

fun awaited :: "string \<Rightarrow> (cevent \<times> outcome) list \<Rightarrow> nat list" where
  "awaited k [] = []"
| "awaited k ((GetZip k', Awaits p) # log) =
     (if k' = k then p # awaited k log else awaited k log)"
| "awaited k (x # log) = awaited k log"

text \<open>The \<open>getZip(k)\<close> calls of a log that were not told to wait.\<close>

fun unqueued :: "string \<Rightarrow> (cevent \<times> outcome) list \<Rightarrow> (cevent \<times> outcome) list" where
  "unqueued k [] = []"
| "unqueued k ((GetZip k', Awaits p) # log) = unqueued k log"
| "unqueued k ((GetZip k', r) # log) =
     (if k' = k then (GetZip k', r) # unqueued k log else unqueued k log)"
| "unqueued k (x # log) = unqueued k log"

text \<open>The texts a schedule hands to \<open>gzip\<close>: those of its \<open>addText\<close> calls that are not empty.\<close>

fun started :: "cevent list \<Rightarrow> string list" where
  "started [] = []"
| "started (AddText k v # evs) = (if v = [] then started evs else v # started evs)"
| "started (e # evs) = started evs"

text \<open>Conditions on a schedule and on the calls of \<open>gzip\<close> that are pending.\<close>

definition no_addText :: "string \<Rightarrow> cevent list \<Rightarrow> bool" where
  "no_addText k evs = list_all (\<lambda>e. case e of AddText k' v \<Rightarrow> k' \<noteq> k | _ \<Rightarrow> True) evs"

definition no_done :: "nat \<Rightarrow> cevent list \<Rightarrow> bool" where
  "no_done j evs = list_all (\<lambda>e. case e of GzipDone j' \<Rightarrow> j' \<noteq> j | _ \<Rightarrow> True) evs"


definition no_base_add :: "string \<Rightarrow> cevent list \<Rightarrow> bool" where
  "no_base_add k evs =
     list_all (\<lambda>e. case e of Base (Add k' v) \<Rightarrow> k' \<noteq> k | _ \<Rightarrow> True) evs"

definition in_flight :: "string \<Rightarrow> ccache \<Rightarrow> bool" where
  "in_flight k s = (k \<in> set (map (\<lambda>jb. fst (snd jb)) (pending s)))"

text \<open>Every pending call of \<open>gzip\<close> has its number in the list of calls made.\<close>

definition jobs_ok :: "ccache \<Rightarrow> bool" where
  "jobs_ok s = list_all (\<lambda>jb. fst jb < length (gzipCalls s)) (pending s)"

subsection \<open>A compression in flight, and after it\<close>

text \<open>
  \<open>staged\<close>: the call number \<open>j\<close> of \<open>gzip\<close>, made by \<open>addText(k, t)\<close>, is pending, no
  other pending call has that number or is for \<open>k\<close>; \<open>t\<close> is in \<open>zipBuffer\<close> and \<open>k\<close>
  has a queue.
  \<open>waiting\<close>: moreover the queue of \<open>k\<close> is \<open>q\<close> and the store does not hold \<open>k\<close>.
  \<open>kept\<close>: the store holds \<open>z\<close> for \<open>k\<close>, nothing is staged for \<open>k\<close> and no call of
  \<open>gzip\<close> for \<open>k\<close> is pending.
\<close>

definition staged :: "string \<Rightarrow> nat \<Rightarrow> string \<Rightarrow> ccache \<Rightarrow> bool" where
  "staged k j t s =
     (map_get (zipBuffer s) k = Some t \<and> map_has (zipQueue s) k \<and>
      filter (\<lambda>jb. fst jb = j \<or> fst (snd jb) = k) (pending s) = [(j, k, t)] \<and>
      j < length (gzipCalls s))"

definition waiting :: "string \<Rightarrow> nat \<Rightarrow> string \<Rightarrow> nat list \<Rightarrow> ccache \<Rightarrow> bool" where
  "waiting k j t q s =
     (staged k j t s \<and> map_get (zipQueue s) k = Some q \<and> \<not> map_has (items (base s)) k)"

definition kept :: "string \<Rightarrow> jsval \<Rightarrow> ccache \<Rightarrow> bool" where
  "kept k z s =
     (map_option item_value (map_get (items (base s)) k) = Some z \<and>
      \<not> map_has (zipBuffer s) k \<and> \<not> in_flight k s)"

section \<open>Well-formed stores\<close>

text \<open>
  What \<open>add\<close>, the only method that writes an entry, keeps true of the store: keys are
  unique, each entry carries its own key, and a size is a length or 0.
\<close>

definition wf_store :: "store \<Rightarrow> bool" where
  "wf_store m =
     (distinct (map fst m) \<and> list_all (\<lambda>e. item_key (snd e) = fst e \<and> 0 \<le> item_size (snd e)) m)"

text \<open>Every stored value passed the test of \<open>add\<close>.\<close>

definition values_ok :: "store \<Rightarrow> bool" where
  "values_ok m = list_all (\<lambda>e. is_value (item_value (snd e))) m"

text \<open>What the age and count passes keep true of the two locals.\<close>

definition marks_ok :: "cache \<Rightarrow> CacheItem list \<times> string list \<Rightarrow> bool" where
  "marks_ok s sr =
     (case sr of (work, toRemove) \<Rightarrow>
        work = filter (\<lambda>i. item_key i \<notin> set toRemove) (sorted_items s) \<and>
        set toRemove \<subseteq> set (map item_key (sorted_items s)) \<and> distinct toRemove)"

section \<open>Two caches used as examples\<close>

text \<open>
  Three entries added one millisecond apart, under \<open>{maxItems: 2}\<close> and under
  \<open>{maxBytes: 5}\<close>, with the prune timer of the last \<open>add\<close> still pending.
\<close>

definition entry :: "string \<Rightarrow> int \<Rightarrow> jsval \<Rightarrow> int \<Rightarrow> string \<times> CacheItem" where
  "entry k t v sz = (k, \<lparr>item_key = k, item_added = t, item_value = v, item_size = sz\<rparr>)"

definition ex_count :: cache where
  "ex_count =
     \<lparr>items = [entry ''a'' 0 (Str ''x'') 1, entry ''b'' 1 (Str ''y'') 1, entry ''c'' 2 (Str ''z'') 1],
      policy = \<lparr>maxItems = Some 2, maxAge = Some 0, maxBytes = Some 0\<rparr>,
      evictTimer = Some 3, canMeasureSize = True, events = [], clock = 2,
      timers = [(3, 12)], nextHandle = 4\<rparr>"

definition ex_bytes :: cache where
  "ex_bytes =
     \<lparr>items = [entry ''a'' 0 (Str ''aaa'') 3, entry ''b'' 1 (Buf ''bb'') 2,
               entry ''c'' 2 (Str ''cccc'') 4],
      policy = \<lparr>maxItems = Some 0, maxAge = Some 0, maxBytes = Some 5\<rparr>,
      evictTimer = Some 3, canMeasureSize = True, events = [], clock = 2,
      timers = [(3, 12)], nextHandle = 4\<rparr>"

text \<open>
  A pair of functions standing for \<open>gzip\<close> and \<open>unzip\<close> in the examples, and a
  \<open>CompressCache\<close> in which \<open>addText("k", "old")\<close> has run to its end.
\<close>

definition demo_gzip :: "string \<Rightarrow> string option" where
  "demo_gzip t = Some (CHR ''Z'' # t)"

definition demo_unzip :: "string \<Rightarrow> string option" where
  "demo_unzip b = (case b of [] \<Rightarrow> None | c # t \<Rightarrow> if c = CHR ''Z'' then Some t else None)"

definition ex_stored :: ccache where
  "ex_stored =
     \<lparr>base = add ''k'' (Buf ''Zold'') (new_cache defaultPolicy 0), loader = None,
      zipBuffer = [], zipQueue = [], nextPromise = 0, settled = [], gzipCalls = [''old''],
      pending = [], rejected = []\<rparr>"

section \<open>Facts about the helpers\<close>

lemma indexOf_ge: "indexOf xs x \<ge> - 1"
  by (induction xs) (auto simp: Let_def)

lemma indexOf_absent: "(indexOf xs x = - 1) = (x \<notin> set xs)"
proof (induction xs)
  case Nil
  show ?case by simp
next
  case (Cons y ys)
  have "- 1 \<le> indexOf ys x" by (rule indexOf_ge)
  with Cons show ?case by (auto simp: Let_def)
qed

lemma indexOf_neg: "(indexOf xs x < 0) = (x \<notin> set xs)"
  using indexOf_ge[of xs x] indexOf_absent[of xs x] by linarith

lemma map_get_None: "(map_get m k = None) = (\<not> map_has m k)"
  by (simp add: map_get_def map_has_def map_of_eq_None_iff)

lemma map_get_set_same: "map_get (map_set m k v) k = Some v"
  by (induction m) (auto simp: map_get_def)

lemma contains_is_has: "contains k allowEmpty s = map_has (items s) k"
  using map_get_None[of "items s" k]
  by (auto simp: contains_def is_empty_entry_def split: option.splits)

lemma deleteAll_canMeasureSize:
  "canMeasureSize (deleteAll ks s) = canMeasureSize s"
  unfolding deleteAll_def by (induction ks arbitrary: s) auto

lemma prune_unmeasurable:
  assumes "\<not> canMeasureSize s"
  shows "\<exists>s'. prune s = Some s' \<and> \<not> canMeasureSize s'"
  using assms
  by (auto simp: prune_def bytePass_def emit_def deleteAll_canMeasureSize split: option.splits prod.splits)


lemma elapse_unmeasurable_aux:
  assumes "\<not> canMeasureSize s"
  shows "\<exists>s'. fold (\<lambda>h r. Option.bind r (fireTimer h)) hs (Some s) = Some s' \<and> \<not> canMeasureSize s'"
  using assms
proof (induction hs arbitrary: s)
  case Nil
  then show ?case by simp
next
  case (Cons h hs)
  have "\<exists>s1. fireTimer h s = Some s1 \<and> \<not> canMeasureSize s1"
  proof (cases "h \<in> set (map fst (timers s))")
    case True
    then show ?thesis
      using prune_unmeasurable[of "s\<lparr>timers := filter (\<lambda>t. fst t \<noteq> h) (timers s)\<rparr>"] Cons.prems
      by (simp add: fireTimer_def)
  next
    case False
    then show ?thesis using Cons.prems by (simp add: fireTimer_def)
  qed
  then obtain s1 where s1: "fireTimer h s = Some s1" "\<not> canMeasureSize s1" by blast
  from Cons.IH[OF s1(2)] s1(1) show ?case by simp
qed

lemma step_unmeasurable:
  assumes "\<not> canMeasureSize s"
  shows "\<exists>s'. step x s = Some s' \<and> \<not> canMeasureSize s'"
proof (cases x)
  case (Add k v)
  then show ?thesis using assms
    by (simp add: add_def schedulePrune_def setTimeout_def clearTimeout_def Let_def split: option.splits)
next
  case (Get k silent)
  then show ?thesis using assms by (simp add: get_def emit_def split: option.splits)
next
  case (Remove k)
  then show ?thesis using assms by (simp add: remove_def)
next
  case Clear
  then show ?thesis using assms by (simp add: clear_def)
next
  case (UpdatePolicy p)
  then show ?thesis using assms
    by (simp add: updatePolicy_def schedulePrune_def setTimeout_def clearTimeout_def Let_def split: option.splits)
next
  case Prune
  then show ?thesis using prune_unmeasurable[OF assms] by simp
next
  case (Elapse d)
  then show ?thesis
    using elapse_unmeasurable_aux[of "s\<lparr>clock := clock s + d\<rparr>"] assms
    by (simp add: elapse_def Let_def)
qed

lemma run_unmeasurable:
  assumes "\<not> canMeasureSize s"
  shows "\<exists>s'. run ops s = Some s' \<and> \<not> canMeasureSize s'"
  using assms
proof (induction ops arbitrary: s)
  case Nil
  then show ?case by simp
next
  case (Cons x xs)
  from step_unmeasurable[OF Cons.prems] obtain s1 where
    s1: "step x s = Some s1" "\<not> canMeasureSize s1" by blast
  from Cons.IH[OF s1(2)] s1(1) show ?case by simp
qed

lemma add_flips:
  assumes "is_value v" "byteSize v = - 1"
  shows "\<not> canMeasureSize (add k v s)"
  using assms
  by (simp add: add_def schedulePrune_def setTimeout_def clearTimeout_def Let_def split: option.splits)

lemma schedulePrune_frame:
  "items (schedulePrune s) = items s"
  "canMeasureSize (schedulePrune s) = canMeasureSize s"
  "events (schedulePrune s) = events s"
  "policy (schedulePrune s) = policy s"
  "clock (schedulePrune s) = clock s"
  by (simp_all add: schedulePrune_def setTimeout_def clearTimeout_def Let_def split: option.splits)

lemma schedulePrune_arms:
  "evictTimer (schedulePrune s) = Some (nextHandle s)"
  "(nextHandle s, clock s + 10) \<in> set (timers (schedulePrune s))"
  by (simp_all add: schedulePrune_def setTimeout_def clearTimeout_def Let_def split: option.splits)

lemma foldl_sizes: "foldl (\<lambda>total i. total + item_size i) a xs = a + sum_list (map item_size xs)"
  by (induction xs arbitrary: a) auto

lemma totalSize_sum:
  "totalSize m ex = sum_list (map item_size (filter (\<lambda>i. item_key i \<notin> set ex) (map snd m)))"
  by (simp add: totalSize_def foldl_sizes indexOf_neg map_values_def)

lemma sum_filter_insort:
  "sum_list (map f (filter P (insort_key g x xs))) =
   (if P x then f x else (0::int)) + sum_list (map f (filter P xs))"
  by (induction xs) auto

lemma sum_filter_sort:
  "sum_list (map f (filter P (sort_key g xs))) = (sum_list (map f (filter P xs)) :: int)"
  by (induction xs) (auto simp: sum_filter_insort)

lemma totalSize_sorted:
  "totalSize (items s) ex =
   sum_list (map item_size (filter (\<lambda>i. item_key i \<notin> set ex) (sorted_items s)))"
  by (simp add: totalSize_sum sorted_items_def sum_filter_sort map_values_def)

lemma wf_keys: "wf_store m \<Longrightarrow> map item_key (map snd m) = map fst m"
  by (induction m) (auto simp: wf_store_def)

lemma distinct_sorted_keys:
  assumes "wf_store (items s)"
  shows "distinct (map item_key (sorted_items s))"
proof -
  have "distinct (map fst (items s))" using assms by (simp add: wf_store_def)
  then have "distinct (map item_key (map snd (items s)))"
    by (simp only: wf_keys[OF assms])
  then have "distinct (map snd (items s))" "inj_on item_key (set (map snd (items s)))"
    by (simp_all only: distinct_map)
  then show ?thesis
    by (simp add: sorted_items_def map_values_def distinct_map)
qed

lemma sorted_sorted_items: "sorted (map item_added (sorted_items s))"
  by (simp add: sorted_items_def)

lemma marks_ok_start: "marks_ok s (sorted_items s, [])"
  by (simp add: marks_ok_def)

lemma filter_keys_take:
  "distinct (map f xs) \<Longrightarrow> filter (\<lambda>i. f i \<notin> set (map f (take n xs))) xs = drop n xs"
proof (induction xs arbitrary: n)
  case Nil
  then show ?case by simp
next
  case (Cons x xs)
  show ?case
  proof (cases n)
    case 0
    then show ?thesis by simp
  next
    case (Suc n')
    have "filter (\<lambda>i. f i \<notin> set (map f (take n' xs))) xs = drop n' xs"
      using Cons by simp
    moreover have "f x \<notin> f ` set xs" using Cons.prems by simp
    then have "\<And>i. i \<in> set xs \<Longrightarrow> f i \<noteq> f x" by (metis imageI)
    then have "filter (\<lambda>i. f i \<noteq> f x \<and> f i \<notin> set (map f (take n' xs))) xs =
                   filter (\<lambda>i. f i \<notin> set (map f (take n' xs))) xs"
      by (intro filter_cong) simp_all
    ultimately show ?thesis using Suc by simp
  qed
qed


lemma marks_ok_extend:
  assumes ok: "marks_ok s (work, rm)"
    and dist: "distinct (map item_key (sorted_items s))"
    and sub: "set picked \<subseteq> set work" "distinct (map item_key picked)"
  shows "marks_ok s
           (filter (\<lambda>i. indexOf (rm @ map item_key picked) (item_key i) = - 1) work,
            rm @ map item_key picked)"
proof -
  have work: "work = filter (\<lambda>i. item_key i \<notin> set rm) (sorted_items s)"
    and rm: "set rm \<subseteq> set (map item_key (sorted_items s))" "distinct rm"
    using ok by (simp_all add: marks_ok_def)
  have "filter (\<lambda>i. item_key i \<notin> set (rm @ map item_key picked)) work =
        filter (\<lambda>i. item_key i \<notin> set (rm @ map item_key picked)) (sorted_items s)"
    by (subst work) (auto intro: filter_cong)
  moreover have "set (map item_key picked) \<subseteq> set (map item_key (sorted_items s))"
    using sub(1) work by auto
  moreover have "set rm \<inter> set (map item_key picked) = {}"
    using sub(1) work by auto
  ultimately show ?thesis
    using rm sub(2) by (simp add: marks_ok_def indexOf_absent)
qed

lemma distinct_keys_filter:
  "distinct (map item_key xs) \<Longrightarrow> distinct (map item_key (filter P xs))"
  by (simp add: distinct_map_filter)

lemma marks_ok_work_distinct:
  assumes "marks_ok s (work, rm)" "distinct (map item_key (sorted_items s))"
  shows "distinct (map item_key work)"
  using assms by (simp add: marks_ok_def distinct_map_filter)

lemma agePass_ok:
  assumes "marks_ok s sr" "distinct (map item_key (sorted_items s))"
  shows "marks_ok s (agePass s sr)"
proof -
  obtain work rm where sr: "sr = (work, rm)" by (cases sr)
  have d: "distinct (map item_key work)"
    using marks_ok_work_distinct assms sr by blast
  show ?thesis
    using assms(1) marks_ok_extend[OF assms(1)[unfolded sr] assms(2),
        of "filter (\<lambda>i. item_added i < clock s - the (maxAge (policy s))) work"] d
    by (auto simp: agePass_def sr Let_def distinct_map_filter split: option.splits)
qed

lemma countPass_ok:
  assumes "marks_ok s sr" "distinct (map item_key (sorted_items s))"
  shows "marks_ok s (countPass s sr)"
proof -
  obtain work rm where sr: "sr = (work, rm)" by (cases sr)
  have d: "distinct (map item_key work)"
    using marks_ok_work_distinct assms sr by blast
  have t: "set (take n work) \<subseteq> set work" "distinct (map item_key (take n work))" for n
    using d by (simp_all add: set_take_subset take_map[symmetric])
  show ?thesis
    using assms(1) marks_ok_extend[OF assms(1)[unfolded sr] assms(2) t]
    by (auto simp: countPass_def sr Let_def split: option.splits)
qed

lemma byteLoop_spec:
  assumes "\<forall>i\<in>set work. 0 \<le> item_size i" "0 \<le> mx"
    and "remaining = sum_list (map item_size work)"
  shows "\<exists>n\<le>length work.
           byteLoop mx remaining work rm = Some (drop n work, rm @ map item_key (take n work)) \<and>
           sum_list (map item_size (drop n work)) \<le> mx \<and>
           (\<forall>j<n. mx < sum_list (map item_size (drop j work)))"
  using assms
proof (induction work arbitrary: remaining rm)
  case Nil
  then show ?case by (subst byteLoop.simps) simp
next
  case (Cons x xs)
  show ?case
  proof (cases "remaining > mx")
    case False
    have "byteLoop mx remaining (x # xs) rm = Some (x # xs, rm)"
      using False by (subst byteLoop.simps) simp
    then show ?thesis using False Cons.prems(3) by (intro exI[of _ 0]) simp
  next
    case True
    have step: "byteLoop mx remaining (x # xs) rm =
                byteLoop mx (remaining - item_size x) xs (rm @ [item_key x])"
      using True by (subst byteLoop.simps) simp
    have "\<exists>n\<le>length xs.
           byteLoop mx (remaining - item_size x) xs (rm @ [item_key x]) =
             Some (drop n xs, (rm @ [item_key x]) @ map item_key (take n xs)) \<and>
           sum_list (map item_size (drop n xs)) \<le> mx \<and>
           (\<forall>j<n. mx < sum_list (map item_size (drop j xs)))"
      using Cons.prems by (intro Cons.IH) simp_all
    then obtain n where n: "n \<le> length xs"
      "byteLoop mx (remaining - item_size x) xs (rm @ [item_key x]) =
             Some (drop n xs, (rm @ [item_key x]) @ map item_key (take n xs))"
      "sum_list (map item_size (drop n xs)) \<le> mx"
      "\<forall>j<n. mx < sum_list (map item_size (drop j xs))" by blast
    have "\<forall>j<Suc n. mx < sum_list (map item_size (drop j (x # xs)))"
    proof (intro allI impI)
      fix j assume "j < Suc n"
      then show "mx < sum_list (map item_size (drop j (x # xs)))"
        using n(4) True Cons.prems(3) by (cases j) simp_all
    qed
    then show ?thesis
      using n step by (intro exI[of _ "Suc n"]) simp
  qed
qed

lemma deleteAll_items: "items (deleteAll ks s) = filter (\<lambda>e. fst e \<notin> set ks) (items s)"
  unfolding deleteAll_def
proof (induction ks arbitrary: s)
  case Nil
  show ?case by simp
next
  case (Cons k ks)
  have "items (fold (\<lambda>k c. c\<lparr>items := map_delete (items c) k\<rparr>) ks
                 (s\<lparr>items := map_delete (items s) k\<rparr>)) =
        filter (\<lambda>e. fst e \<notin> set ks) (map_delete (items s) k)"
    using Cons.IH[of "s\<lparr>items := map_delete (items s) k\<rparr>"] by simp
  then show ?case by (auto simp: map_delete_def intro: filter_cong)
qed

lemma deleteAll_others:
  "events (deleteAll ks s) = events s"
  "policy (deleteAll ks s) = policy s"
  "timers (deleteAll ks s) = timers s"
  unfolding deleteAll_def by (induction ks arbitrary: s) auto

lemma marks_take_filter:
  assumes ok: "marks_ok s (work, rm)" and dist: "distinct (map item_key (sorted_items s))"
  shows "filter (\<lambda>i. indexOf (rm @ map item_key (take n work)) (item_key i) = - 1) work =
         drop n work"
proof -
  have work: "work = filter (\<lambda>i. item_key i \<notin> set rm) (sorted_items s)"
    using ok by (simp add: marks_ok_def)
  have "\<And>i. i \<in> set work \<Longrightarrow> item_key i \<notin> set rm"
    by (subst (asm) work) simp
  then have "filter (\<lambda>i. indexOf (rm @ map item_key (take n work)) (item_key i) = - 1) work =
        filter (\<lambda>i. item_key i \<notin> set (map item_key (take n work))) work"
    by (intro filter_cong) (simp_all add: indexOf_absent)
  also have "\<dots> = drop n work"
    using marks_ok_work_distinct[OF ok dist] by (rule filter_keys_take)
  finally show ?thesis .
qed

lemma marks_ok_take:
  assumes ok: "marks_ok s (work, rm)" and dist: "distinct (map item_key (sorted_items s))"
  shows "marks_ok s (drop n work, rm @ map item_key (take n work))"
proof -
  have d: "distinct (map item_key work)" using marks_ok_work_distinct[OF ok dist] .
  have "set (take n work) \<subseteq> set work" by (rule set_take_subset)
  moreover have "distinct (map item_key (take n work))"
    using d by (simp add: take_map[symmetric])
  ultimately show ?thesis
    using marks_ok_extend[OF ok dist, of "take n work"] marks_take_filter[OF ok dist, of n]
    by simp
qed

lemma totalSize_marks:
  assumes ok: "marks_ok s (work, rm)" and dist: "distinct (map item_key (sorted_items s))"
  shows "totalSize (items s) (rm @ map item_key (take n work)) =
         sum_list (map item_size (drop n work))"
  using marks_ok_take[OF ok dist, of n]
  by (simp add: totalSize_sorted marks_ok_def del: set_append map_append)

lemma wf_sizes:
  assumes "wf_store (items s)" "marks_ok s (work, rm)"
  shows "\<forall>i\<in>set work. 0 \<le> item_size i"
proof -
  have "\<forall>i\<in>set (map snd (items s)). 0 \<le> item_size i"
    using assms(1) by (auto simp: wf_store_def list_all_iff)
  then show ?thesis
    using assms(2) by (auto simp: marks_ok_def sorted_items_def map_values_def)
qed

lemma bytePass_spec:
  assumes wf: "wf_store (items s)" and ok: "marks_ok s (work, rm)"
    and mx: "maxBytes (policy s) = Some mx" "0 < mx" and ms: "canMeasureSize s"
  shows "\<exists>n\<le>length work.
           bytePass s (work, rm) = Some (drop n work, rm @ map item_key (take n work)) \<and>
           totalSize (items s) (rm @ map item_key (take n work)) \<le> mx \<and>
           (\<forall>j<n. mx < totalSize (items s) (rm @ map item_key (take j work)))"
proof -
  have dist: "distinct (map item_key (sorted_items s))" using wf by (rule distinct_sorted_keys)
  have tot: "totalSize (items s) (rm @ map item_key (take n work)) =
         sum_list (map item_size (drop n work))" for n
    using ok dist by (rule totalSize_marks)
  have t0: "totalSize (items s) rm = sum_list (map item_size work)"
    using tot[of 0] by simp
  have bp: "bytePass s (work, rm) = byteLoop mx (totalSize (items s) rm) work rm"
    using mx ms by (simp add: bytePass_def)
  from byteLoop_spec[OF wf_sizes[OF wf ok] _ t0, of mx rm] mx(2)
  show ?thesis unfolding bp tot by simp
qed

lemma passes_ok:
  assumes wf: "wf_store (items s)"
  shows "marks_ok s (agePass s (sorted_items s, []))"
    and "marks_ok s (countPass s (agePass s (sorted_items s, [])))"
proof -
  have dist: "distinct (map item_key (sorted_items s))" using wf by (rule distinct_sorted_keys)
  show a: "marks_ok s (agePass s (sorted_items s, []))"
    using marks_ok_start dist by (rule agePass_ok)
  show "marks_ok s (countPass s (agePass s (sorted_items s, [])))"
    using a dist by (rule countPass_ok)
qed

lemma bytePass_returns:
  assumes wf: "wf_store (items s)" and ok: "marks_ok s (work, rm)"
  shows "\<exists>n\<le>length work.
           bytePass s (work, rm) = Some (drop n work, rm @ map item_key (take n work))"
proof (cases "\<exists>mx. maxBytes (policy s) = Some mx \<and> 0 < mx \<and> canMeasureSize s")
  case True
  then obtain mx where "maxBytes (policy s) = Some mx" "0 < mx" "canMeasureSize s" by blast
  from bytePass_spec[OF wf ok this] show ?thesis by blast
next
  case False
  then have "bytePass s (work, rm) = Some (work, rm)"
    by (auto simp: bytePass_def split: option.splits)
  then show ?thesis by (intro exI[of _ 0]) simp
qed

lemma all_passes:
  assumes wf: "wf_store (items s)"
  shows "\<exists>w ks. bytePass s (countPass s (agePass s (sorted_items s, []))) = Some (w, ks) \<and>
                marks_ok s (w, ks)"
proof -
  have dist: "distinct (map item_key (sorted_items s))" using wf by (rule distinct_sorted_keys)
  obtain work rm where c: "countPass s (agePass s (sorted_items s, [])) = (work, rm)"
    by (cases "countPass s (agePass s (sorted_items s, []))")
  have ok: "marks_ok s (work, rm)" using passes_ok(2)[OF wf] c by simp
  from bytePass_returns[OF wf ok] obtain n where
    "bytePass s (work, rm) = Some (drop n work, rm @ map item_key (take n work))" by blast
  with marks_ok_take[OF ok dist, of n] c show ?thesis by simp
qed

lemma sorted_keys_are_store_keys:
  "wf_store (items s) \<Longrightarrow> set (map item_key (sorted_items s)) = set (map fst (items s))"
proof -
  assume "wf_store (items s)"
  then have "set (map item_key (map snd (items s))) = set (map fst (items s))"
    by (simp only: wf_keys)
  then show ?thesis by (simp add: sorted_items_def map_values_def image_image)
qed

lemma filter_keys_shrinks:
  assumes "ks \<noteq> []" "set ks \<subseteq> set (map fst m)"
  shows "length (filter (\<lambda>e. fst e \<notin> set ks) m) < length m"
proof -
  obtain k where "k \<in> set ks" using assms(1) by (cases ks) auto
  then obtain e where "e \<in> set m" "fst e \<in> set ks" using assms(2) by auto
  then show ?thesis by (metis (mono_tags, lifting) length_filter_less)
qed

lemma totalSize_after_delete:
  assumes "wf_store m"
  shows "totalSize (filter (\<lambda>e. fst e \<notin> set ks) m) [] = totalSize m ks"
proof -
  have "list_all (\<lambda>e. item_key (snd e) = fst e) m \<Longrightarrow>
        map snd (filter (\<lambda>e. fst e \<notin> set ks) m) =
        filter (\<lambda>i. item_key i \<notin> set ks) (map snd m)"
    by (induction m) auto
  moreover have "list_all (\<lambda>e. item_key (snd e) = fst e) m"
    using assms by (simp add: wf_store_def list_all_iff)
  ultimately show ?thesis by (simp add: totalSize_sum)
qed

lemma marks_ok_sorted:
  "marks_ok s (work, rm) \<Longrightarrow> sorted (map item_added work)"
  using sorted_filter[OF sorted_sorted_items, of "\<lambda>i. item_key i \<notin> set rm" s]
  by (simp add: marks_ok_def)

lemma prune_from_passes:
  assumes "bytePass s (countPass s (agePass s (sorted_items s, []))) = Some (w, ks)"
  shows "\<exists>s'. prune s = Some s' \<and> policy s' = policy s \<and>
           (items s' = filter (\<lambda>e. fst e \<notin> set ks) (items s) \<or> items s = [])"
proof (cases "cache_length s > 0 \<and>
         (maxAge (policy s) \<noteq> Some 0 \<or> maxItems (policy s) \<noteq> Some 0 \<or>
          maxBytes (policy s) \<noteq> Some 0)")
  case True
  show ?thesis
  proof (cases "ks = []")
    case True
    then show ?thesis using assms by (auto simp: prune_def)
  next
    case False
    then show ?thesis using assms True
      by (simp add: prune_def emit_def deleteAll_items deleteAll_others)
  qed
next
  case False
  have "items s' = filter (\<lambda>e. fst e \<notin> set ks) (items s) \<or> items s = []" if "s' = s" for s'
  proof (cases "items s = []")
    case True then show ?thesis by simp
  next
    case ne: False
    then have "cache_length s > 0" by (simp add: cache_length_def)
    with False have z: "maxAge (policy s) = Some 0" "maxItems (policy s) = Some 0"
      "maxBytes (policy s) = Some 0" by auto
    have "bytePass s (countPass s (agePass s (sorted_items s, []))) = Some (sorted_items s, [])"
      using z by (simp add: bytePass_def countPass_def agePass_def)
    with assms have "ks = []" by simp
    with that show ?thesis by simp
  qed
  moreover have "prune s = Some s" using False by (auto simp: prune_def)
  ultimately show ?thesis by simp
qed

lemma emit_deleteAll:
  "items (emit ty ev (deleteAll ks s)) = filter (\<lambda>e. fst e \<notin> set ks) (items s)"
  "events (emit ty ev (deleteAll ks s)) = events s @
     [\<lparr>ev_type = ty, ev_payload = ev, ev_store = filter (\<lambda>e. fst e \<notin> set ks) (items s)\<rparr>]"
  by (simp_all add: emit_def deleteAll_items deleteAll_others)

lemma wf_store_filter: "wf_store m \<Longrightarrow> wf_store (filter P m)"
  by (simp add: wf_store_def distinct_map_filter list_all_iff)

lemma map_set_keys: "set (map fst (map_set m k v)) = insert k (set (map fst m))"
proof (induction m)
  case Nil
  show ?case by simp
next
  case (Cons e m)
  obtain k' v' where e: "e = (k', v')" by (cases e)
  show ?case using Cons by (cases "k' = k") (simp_all add: e insert_commute)
qed

lemma wf_store_set:
  assumes "wf_store m" "item_key v = k" "0 \<le> item_size v"
  shows "wf_store (map_set m k v)"
  using assms
proof (induction m)
  case Nil
  then show ?case by (simp add: wf_store_def)
next
  case (Cons e m)
  obtain k' v' where e: "e = (k', v')" by (cases e)
  have "wf_store m" using Cons.prems(1) by (simp add: wf_store_def)
  then have ih: "wf_store (map_set m k v)" using Cons.prems by (intro Cons.IH)
  show ?case
  proof (cases "k' = k")
    case True
    then show ?thesis using Cons.prems by (simp add: e wf_store_def)
  next
    case False
    have "k' \<notin> set (map fst (map_set m k v))"
      using Cons.prems(1) False unfolding map_set_keys by (simp add: e wf_store_def)
    then show ?thesis using Cons.prems(1) ih False by (simp add: e wf_store_def)
  qed
qed

lemma byteSize_ge: "- 1 \<le> byteSize v"
  by (cases v) simp_all

lemma wf_add: "wf_store (items s) \<Longrightarrow> wf_store (items (add k v s))"
  using byteSize_ge[of v]
  by (auto simp: add_def schedulePrune_frame Let_def intro!: wf_store_set)

lemma prune_items:
  assumes "prune s = Some s'"
  shows "\<exists>ks. items s' = filter (\<lambda>e. fst e \<notin> set ks) (items s)"
proof (cases "items s' = items s")
  case True
  then show ?thesis by (intro exI[of _ "[]"]) simp
next
  case False
  then show ?thesis using assms
    by (auto simp: prune_def emit_deleteAll split: if_splits option.splits prod.splits)
qed

lemma wf_prune: "wf_store (items s) \<Longrightarrow> prune s = Some s' \<Longrightarrow> wf_store (items s')"
  using prune_items[of s s'] by (auto simp: wf_store_filter)

lemma wf_fire: "wf_store (items s) \<Longrightarrow> fireTimer h s = Some s' \<Longrightarrow> wf_store (items s')"
  using wf_prune[of "s\<lparr>timers := filter (\<lambda>t. fst t \<noteq> h) (timers s)\<rparr>" s']
  by (auto simp: fireTimer_def split: if_splits)

lemma wf_fire_all:
  "wf_store (items s) \<Longrightarrow>
   fold (\<lambda>h r. Option.bind r (fireTimer h)) hs (Some s) = Some s' \<Longrightarrow> wf_store (items s')"
proof (induction hs arbitrary: s)
  case Nil
  then show ?case by simp
next
  case (Cons h hs)
  show ?case
  proof (cases "fireTimer h s")
    case None
    have "fold (\<lambda>h r. Option.bind r (fireTimer h)) hs None = None"
      by (induction hs) simp_all
    with None Cons.prems(2) show ?thesis by simp
  next
    case (Some s1)
    then show ?thesis using Cons wf_fire[OF Cons.prems(1) Some] by simp
  qed
qed

lemma wf_step: "wf_store (items s) \<Longrightarrow> step x s = Some s' \<Longrightarrow> wf_store (items s')"
proof (cases x)
  case (Add k v)
  assume "wf_store (items s)" "step x s = Some s'"
  then show ?thesis using Add wf_add by auto
next
  case (Get k silent)
  assume "wf_store (items s)" "step x s = Some s'"
  then show ?thesis using Get by (auto simp: get_def emit_def split: option.splits)
next
  case (Remove k)
  assume "wf_store (items s)" "step x s = Some s'"
  then show ?thesis using Remove by (auto simp: remove_def map_delete_def wf_store_filter)
next
  case Clear
  assume "wf_store (items s)" "step x s = Some s'"
  then show ?thesis using Clear by (auto simp: clear_def wf_store_def)
next
  case (UpdatePolicy p)
  assume "wf_store (items s)" "step x s = Some s'"
  then show ?thesis using UpdatePolicy by (auto simp: updatePolicy_def schedulePrune_frame)
next
  case Prune
  assume "wf_store (items s)" "step x s = Some s'"
  then show ?thesis using Prune wf_prune by auto
next
  case (Elapse d)
  assume "wf_store (items s)" "step x s = Some s'"
  then show ?thesis using Elapse wf_fire_all[of "s\<lparr>clock := clock s + d\<rparr>" _ s']
    by (auto simp: elapse_def Let_def)
qed

lemma wf_run: "wf_store (items s) \<Longrightarrow> run ops s = Some s' \<Longrightarrow> wf_store (items s')"
proof (induction ops arbitrary: s)
  case Nil
  then show ?case by simp
next
  case (Cons x xs)
  then obtain s1 where "step x s = Some s1" "run xs s1 = Some s'"
    by (cases "step x s") auto
  then show ?case using Cons wf_step by blast
qed

lemma wf_reachable: "run ops (new_cache p now) = Some s \<Longrightarrow> wf_store (items s)"
  by (rule wf_run[of "new_cache p now"]) (simp_all add: new_cache_def wf_store_def)

lemma ex_count_reached:
  "run [Add ''a'' (Str ''x''), Elapse 1, Add ''b'' (Str ''y''), Elapse 1, Add ''c'' (Str ''z'')]
        (new_cache \<lparr>maxItems = Some 2, maxAge = None, maxBytes = None\<rparr> 0) = Some ex_count"
  by code_simp

lemma ex_bytes_reached:
  "run [Add ''a'' (Str ''aaa''), Elapse 1, Add ''b'' (Buf ''bb''), Elapse 1, Add ''c'' (Str ''cccc'')]
        (new_cache \<lparr>maxItems = None, maxAge = None, maxBytes = Some 5\<rparr> 0) = Some ex_bytes"
  by code_simp

lemma map_has_set_same: "map_has (map_set m k v) k"
  by (simp add: map_has_def map_set_keys del: set_map)

lemma map_has_delete_same: "\<not> map_has (map_delete m k) k"
  by (auto simp: map_has_def map_delete_def)

lemma map_get_delete_same: "map_get (map_delete m k) k = None"
  using map_has_delete_same[of m k] by (simp add: map_get_None)

lemma contains_after_add:
  "is_value v \<Longrightarrow> contains k False (add k v b) \<and> get k False (add k v b) = (v, add k v b)"
proof -
  assume v: "is_value v"
  have "\<exists>i. items (add k v b) = map_set (items b) k i \<and> item_value i = v"
    using v by (auto simp: add_def schedulePrune_frame Let_def)
  then obtain i where i: "items (add k v b) = map_set (items b) k i" "item_value i = v" by blast
  have "map_has (items (add k v b)) k" "map_get (items (add k v b)) k = Some i"
    unfolding i(1) by (simp_all add: map_has_set_same map_get_set_same)
  then show ?thesis using i(2) by (simp add: contains_is_has get_def)
qed

lemma deleteAll_evictTimer: "evictTimer (deleteAll ks s) = evictTimer s"
  unfolding deleteAll_def by (induction ks arbitrary: s) auto

lemma prune_timers:
  assumes "prune s = Some s'"
  shows "timers s' = timers s \<and> evictTimer s' = evictTimer s"
  using assms
  by (auto simp: prune_def emit_def deleteAll_others deleteAll_evictTimer
        split: if_splits option.splits prod.splits)

lemma elapse_single:
  assumes "timers s = [(h, due)]" "due \<le> clock s + d"
  shows "elapse d s = prune (s\<lparr>clock := clock s + d, timers := []\<rparr>)"
  using assms by (simp add: elapse_def fireTimer_def Let_def)

lemma filter_below_sorted:
  "sorted (map f xs) \<Longrightarrow> filter (\<lambda>x. f x < (c::int)) xs = takeWhile (\<lambda>x. f x < c) xs"
proof (induction xs)
  case Nil
  show ?case by simp
next
  case (Cons x xs)
  show ?case
  proof (cases "f x < c")
    case True
    then show ?thesis using Cons by simp
  next
    case False
    have "\<forall>y\<in>set xs. \<not> f y < c" using Cons.prems False by auto
    then have "filter (\<lambda>x. f x < c) xs = []" by (simp add: filter_empty_conv)
    then show ?thesis using False by simp
  qed
qed

text \<open>The two locals cut the age-sorted snapshot in two: marked prefix, working rest.\<close>

lemma prefix_extend:
  assumes "rm = map item_key (take n xs)" "work = drop n xs"
  shows "rm @ map item_key (take j work) = map item_key (take (n + j) xs) \<and>
         drop j work = drop (n + j) xs"
proof -
  have "take (n + j) xs = take n xs @ take j (drop n xs)" by (rule take_add)
  moreover have "drop j (drop n xs) = drop (n + j) xs" by (simp add: add.commute)
  ultimately show ?thesis using assms by simp
qed

lemma agePass_prefix:
  assumes wf: "wf_store (items s)"
  shows "\<exists>n. agePass s (sorted_items s, []) =
           (drop n (sorted_items s), map item_key (take n (sorted_items s)))"
proof (cases "\<exists>a. maxAge (policy s) = Some a \<and> 0 < a")
  case False
  then have "agePass s (sorted_items s, []) = (sorted_items s, [])"
    by (auto simp: agePass_def split: option.splits)
  then show ?thesis by (intro exI[of _ 0]) simp
next
  case True
  then obtain a where a: "maxAge (policy s) = Some a" "0 < a" by blast
  let ?all = "sorted_items s"
  let ?old = "filter (\<lambda>i. item_added i < clock s - a) ?all"
  have dist: "distinct (map item_key ?all)" using wf by (rule distinct_sorted_keys)
  have "?old = takeWhile (\<lambda>i. item_added i < clock s - a) ?all"
    using sorted_sorted_items by (rule filter_below_sorted)
  then have old: "?old = take (length ?old) ?all"
    by (metis takeWhile_eq_take)
  have "filter (\<lambda>i. indexOf (map item_key (take (length ?old) ?all)) (item_key i) = - 1) ?all =
        drop (length ?old) ?all"
    using marks_take_filter[OF marks_ok_start dist, of "length ?old"] by simp
  then have "agePass s (?all, []) = (drop (length ?old) ?all, map item_key (take (length ?old) ?all))"
    using a old by (simp add: agePass_def Let_def)
  then show ?thesis by blast
qed

lemma countPass_prefix:
  assumes wf: "wf_store (items s)" and ok: "marks_ok s (work, rm)"
  shows "\<exists>j. countPass s (work, rm) = (drop j work, rm @ map item_key (take j work))"
proof (cases "\<exists>m. maxItems (policy s) = Some m \<and> 0 < m \<and> m < int (length work)")
  case False
  then have "countPass s (work, rm) = (work, rm)"
    by (auto simp: countPass_def split: option.splits)
  then show ?thesis by (intro exI[of _ 0]) simp
next
  case True
  then obtain m where m: "maxItems (policy s) = Some m" "0 < m" "m < int (length work)" by blast
  have dist: "distinct (map item_key (sorted_items s))" using wf by (rule distinct_sorted_keys)
  have "countPass s (work, rm) =
     (drop (nat (int (length work) - m)) work,
      rm @ map item_key (take (nat (int (length work) - m)) work))"
    using m marks_take_filter[OF ok dist, of "nat (int (length work) - m)"]
    by (simp add: countPass_def Let_def)
  then show ?thesis by blast
qed

lemma passes_prefix:
  assumes wf: "wf_store (items s)"
    and bp: "bytePass s (countPass s (agePass s (sorted_items s, []))) = Some (w, ks)"
  shows "\<exists>n. ks = map item_key (take n (sorted_items s)) \<and> w = drop n (sorted_items s)"
proof -
  let ?all = "sorted_items s"
  from agePass_prefix[OF wf] obtain n where
    a: "agePass s (?all, []) = (drop n ?all, map item_key (take n ?all))" by blast
  have ok1: "marks_ok s (drop n ?all, map item_key (take n ?all))"
    using passes_ok(1)[OF wf] a by simp
  from countPass_prefix[OF wf ok1] obtain j where
    c: "countPass s (drop n ?all, map item_key (take n ?all)) =
        (drop j (drop n ?all), map item_key (take n ?all) @ map item_key (take j (drop n ?all)))"
    by blast
  have c': "countPass s (drop n ?all, map item_key (take n ?all)) =
        (drop (n + j) ?all, map item_key (take (n + j) ?all))"
    unfolding c using prefix_extend[of "map item_key (take n ?all)" n ?all "drop n ?all" j]
    by simp
  have ok2: "marks_ok s (drop (n + j) ?all, map item_key (take (n + j) ?all))"
    using passes_ok(2)[OF wf] a c' by simp
  from bytePass_returns[OF wf ok2] obtain i where
    b: "bytePass s (drop (n + j) ?all, map item_key (take (n + j) ?all)) =
        Some (drop i (drop (n + j) ?all),
              map item_key (take (n + j) ?all) @ map item_key (take i (drop (n + j) ?all)))"
    by blast
  have b': "bytePass s (drop (n + j) ?all, map item_key (take (n + j) ?all)) =
        Some (drop (n + j + i) ?all, map item_key (take (n + j + i) ?all))"
    unfolding b
    using prefix_extend[of "map item_key (take (n + j) ?all)" "n + j" ?all "drop (n + j) ?all" i]
    by simp
  from bp have "Some (w, ks) = Some (drop (n + j + i) ?all, map item_key (take (n + j + i) ?all))"
    unfolding a c' b' by simp
  then show ?thesis by blast
qed

lemma values_ok_filter: "values_ok m \<Longrightarrow> values_ok (filter P m)"
  by (simp add: values_ok_def list_all_iff)

lemma values_ok_set:
  "values_ok m \<Longrightarrow> is_value (item_value v) \<Longrightarrow> values_ok (map_set m k v)"
  by (induction m) (auto simp: values_ok_def)

lemma values_ok_add: "values_ok (items s) \<Longrightarrow> values_ok (items (add k v s))"
  by (auto simp: add_def schedulePrune_frame Let_def intro!: values_ok_set)

lemma values_ok_prune: "values_ok (items s) \<Longrightarrow> prune s = Some s' \<Longrightarrow> values_ok (items s')"
  using prune_items[of s s'] by (auto simp: values_ok_filter)

lemma values_ok_fire:
  "values_ok (items s) \<Longrightarrow> fireTimer h s = Some s' \<Longrightarrow> values_ok (items s')"
  using values_ok_prune[of "s\<lparr>timers := filter (\<lambda>t. fst t \<noteq> h) (timers s)\<rparr>" s']
  by (auto simp: fireTimer_def split: if_splits)

lemma values_ok_fire_all:
  "values_ok (items s) \<Longrightarrow>
   fold (\<lambda>h r. Option.bind r (fireTimer h)) hs (Some s) = Some s' \<Longrightarrow> values_ok (items s')"
proof (induction hs arbitrary: s)
  case Nil
  then show ?case by simp
next
  case (Cons h hs)
  show ?case
  proof (cases "fireTimer h s")
    case None
    have "fold (\<lambda>h r. Option.bind r (fireTimer h)) hs None = None"
      by (induction hs) simp_all
    with None Cons.prems(2) show ?thesis by simp
  next
    case (Some s1)
    then show ?thesis using Cons values_ok_fire[OF Cons.prems(1) Some] by simp
  qed
qed

lemma values_ok_step:
  assumes "values_ok (items s)" "step x s = Some s'"
  shows "values_ok (items s')"
proof (cases x)
  case (Add k v)
  then show ?thesis using assms values_ok_add by auto
next
  case (Get k silent)
  then show ?thesis using assms by (auto simp: get_def emit_def split: option.splits)
next
  case (Remove k)
  then show ?thesis using assms by (auto simp: remove_def map_delete_def values_ok_filter)
next
  case Clear
  then show ?thesis using assms by (auto simp: clear_def values_ok_def)
next
  case (UpdatePolicy p)
  then show ?thesis using assms by (auto simp: updatePolicy_def schedulePrune_frame)
next
  case Prune
  then show ?thesis using assms values_ok_prune by auto
next
  case (Elapse d)
  then show ?thesis using assms values_ok_fire_all[of "s\<lparr>clock := clock s + d\<rparr>" _ s']
    by (auto simp: elapse_def Let_def)
qed

lemma values_ok_run: "values_ok (items s) \<Longrightarrow> run ops s = Some s' \<Longrightarrow> values_ok (items s')"
proof (induction ops arbitrary: s)
  case Nil
  then show ?case by simp
next
  case (Cons x xs)
  then obtain s1 where "step x s = Some s1" "run xs s1 = Some s'"
    by (cases "step x s") auto
  then show ?case using Cons values_ok_step by blast
qed

lemma values_ok_get:
  assumes "values_ok m" "map_get m k = Some item"
  shows "is_value (item_value item)"
proof -
  have "(k, item) \<in> set m" using assms(2) by (simp add: map_get_def map_of_SomeD)
  then show ?thesis using assms(1) by (auto simp: values_ok_def list_all_iff)
qed

lemma map_get_set_other: "k' \<noteq> k \<Longrightarrow> map_get (map_set m k' v) k = map_get m k"
  by (induction m) (auto simp: map_get_def)

lemma map_get_delete_other: "k' \<noteq> k \<Longrightarrow> map_get (map_delete m k') k = map_get m k"
  by (induction m) (auto simp: map_get_def map_delete_def)

lemma map_has_get: "map_has m k = (map_get m k \<noteq> None)"
  using map_get_None[of m k] by auto

lemma map_has_set_other: "k' \<noteq> k \<Longrightarrow> map_has (map_set m k' v) k = map_has m k"
  by (simp add: map_has_get map_get_set_other)

lemma map_has_delete_other: "k' \<noteq> k \<Longrightarrow> map_has (map_delete m k') k = map_has m k"
  by (simp add: map_has_get map_get_delete_other)

lemma get_present:
  assumes "map_get (items b) k = Some item"
  shows "contains k False b" and "get k False b = (item_value item, b)"
proof -
  have h: "map_has (items b) k" using assms by (simp add: map_has_get)
  then show "contains k False b" by (simp add: contains_is_has)
  show "get k False b = (item_value item, b)" using h assms by (simp add: get_def)
qed

lemma getZip_stored:
  assumes "map_get (items (base s)) k = Some item"
  shows "getZip k s = (Settled (item_value item), s)"
  using get_present[OF assms] by (simp add: getZip_def)

lemma getZip_base: "base (snd (getZip k s)) = base s"
proof (cases "map_get (items (base s)) k")
  case None
  then have "\<not> contains k False (base s)" by (simp add: contains_is_has map_has_get)
  then show ?thesis by (simp add: getZip_def split: option.splits)
next
  case (Some item)
  then show ?thesis by (simp add: getZip_stored)
qed

lemma getZip_frame:
  "zipBuffer (snd (getZip k s)) = zipBuffer s"
  "pending (snd (getZip k s)) = pending s"
  "gzipCalls (snd (getZip k s)) = gzipCalls s"
  "settled (snd (getZip k s)) = settled s"
  "rejected (snd (getZip k s)) = rejected s"
  "loader (snd (getZip k s)) = loader s"
  by (simp_all add: getZip_def split: option.splits prod.splits)

lemma getZip_queue_other:
  "k' \<noteq> k \<Longrightarrow> map_get (zipQueue (snd (getZip k' s))) k = map_get (zipQueue s) k"
  by (simp add: getZip_def map_get_set_other split: option.splits prod.splits)

lemma getZip_queue_has:
  "map_has (zipQueue s) k \<Longrightarrow> map_has (zipQueue (snd (getZip k' s))) k"
  by (cases "k' = k")
     (auto simp: getZip_def map_has_set_same map_has_set_other split: option.splits prod.splits)

lemma getText_state:
  "snd (getText uz k s) = s \<or> snd (getText uz k s) = snd (getZip k s)"
  by (auto simp: getText_def getText_resume_def split: prod.splits outcome.splits)

lemma getText_staged_now:
  assumes "map_get (zipBuffer s) k = Some t"
  shows "getText uz k s = (Settled (Str t), s)"
  using assms by (simp add: getText_def map_has_get)

lemma addText_begin_frame:
  "base (snd (addText_begin k v s)) = base s"
  "settled (snd (addText_begin k v s)) = settled s"
  "rejected (snd (addText_begin k v s)) = rejected s"
  "nextPromise (snd (addText_begin k v s)) = nextPromise s"
  "loader (snd (addText_begin k v s)) = loader s"
  by (simp_all add: addText_begin_def beginZip_def)

lemma addText_begin_other:
  assumes "k' \<noteq> k"
  shows "map_get (zipBuffer (snd (addText_begin k' v s))) k = map_get (zipBuffer s) k"
    and "map_get (zipQueue (snd (addText_begin k' v s))) k = map_get (zipQueue s) k"
    and "pending (snd (addText_begin k' v s)) =
           pending s @ (if v = [] then [] else [(length (gzipCalls s), k', v)])"
    and "gzipCalls (snd (addText_begin k' v s)) = gzipCalls s @ (if v = [] then [] else [v])"
  using assms by (simp_all add: addText_begin_def beginZip_def map_get_set_other)

lemma addText_begin_started:
  assumes "t \<noteq> []"
  shows "addText_begin k t s =
           (True, s\<lparr>zipBuffer := map_set (zipBuffer s) k t, zipQueue := map_set (zipQueue s) k [],
                    gzipCalls := gzipCalls s @ [t],
                    pending := pending s @ [(length (gzipCalls s), k, t)]\<rparr>)"
  using assms by (simp add: addText_begin_def beginZip_def)

lemma add_other_key:
  "k' \<noteq> k \<Longrightarrow> map_get (items (add k' v b)) k = map_get (items b) k"
  by (simp add: add_def schedulePrune_frame Let_def map_get_set_other split: prod.splits)

lemma addText_end_other:
  assumes "k' \<noteq> k"
  shows "map_get (zipBuffer (snd (addText_end gz k' v s))) k = map_get (zipBuffer s) k"
    and "map_get (zipQueue (snd (addText_end gz k' v s))) k = map_get (zipQueue s) k"
    and "map_get (items (base (snd (addText_end gz k' v s)))) k = map_get (items (base s)) k"
    and "pending (snd (addText_end gz k' v s)) = pending s"
    and "gzipCalls (snd (addText_end gz k' v s)) = gzipCalls s"
    and "nextPromise (snd (addText_end gz k' v s)) = nextPromise s"
  using assms
  by (auto simp: addText_end_def endZip_def Let_def map_get_delete_other add_other_key
        split: option.splits prod.splits)

lemma gzip_done_pending: "pending (gzip_done gz j s) = filter (\<lambda>jb. fst jb \<noteq> j) (pending s)"
proof (cases "find (\<lambda>jb. fst jb = j) (pending s)")
  case None
  then have "\<forall>jb\<in>set (pending s). fst jb \<noteq> j" by (auto simp: find_None_iff)
  then have "filter (\<lambda>jb. fst jb \<noteq> j) (pending s) = pending s" by (simp add: filter_id_conv)
  then show ?thesis using None by (simp add: gzip_done_def)
next
  case (Some jb)
  then show ?thesis
    by (auto simp: gzip_done_def Let_def addText_end_def endZip_def
          split: option.splits prod.splits)
qed

lemma gzip_done_frame:
  "gzipCalls (gzip_done gz j s) = gzipCalls s"
  "nextPromise (gzip_done gz j s) = nextPromise s"
  "loader (gzip_done gz j s) = loader s"
  by (auto simp: gzip_done_def Let_def addText_end_def endZip_def
        split: option.splits prod.splits)

lemma gzip_done_other:
  assumes "\<forall>jb\<in>set (pending s). fst jb = j \<longrightarrow> fst (snd jb) \<noteq> k"
  shows "map_get (zipBuffer (gzip_done gz j s)) k = map_get (zipBuffer s) k"
    and "map_get (zipQueue (gzip_done gz j s)) k = map_get (zipQueue s) k"
    and "map_get (items (base (gzip_done gz j s))) k = map_get (items (base s)) k"
proof -
  let ?s1 = "s\<lparr>pending := filter (\<lambda>jb. fst jb \<noteq> j) (pending s)\<rparr>"
  have "map_get (zipBuffer (gzip_done gz j s)) k = map_get (zipBuffer s) k \<and>
        map_get (zipQueue (gzip_done gz j s)) k = map_get (zipQueue s) k \<and>
        map_get (items (base (gzip_done gz j s))) k = map_get (items (base s)) k"
  proof (cases "find (\<lambda>jb. fst jb = j) (pending s)")
    case None
    then show ?thesis by (simp add: gzip_done_def)
  next
    case (Some jb)
    then have "jb \<in> set (pending s)" "fst jb = j"
      by (auto simp: find_Some_iff)
    then have ne: "fst (snd jb) \<noteq> k" using assms by blast
    obtain e s2 where r: "addText_end gz (fst (snd jb)) (snd (snd jb)) ?s1 = (e, s2)"
      by (cases "addText_end gz (fst (snd jb)) (snd (snd jb)) ?s1")
    have s2: "s2 = snd (addText_end gz (fst (snd jb)) (snd (snd jb)) ?s1)" using r by simp
    have "map_get (zipBuffer s2) k = map_get (zipBuffer s) k"
      "map_get (zipQueue s2) k = map_get (zipQueue s) k"
      "map_get (items (base s2)) k = map_get (items (base s)) k"
      unfolding s2 using addText_end_other[OF ne, of gz "snd (snd jb)" ?s1] by simp_all
    then show ?thesis using Some r
      by (cases e) (simp_all add: gzip_done_def Let_def)
  qed
  then show "map_get (zipBuffer (gzip_done gz j s)) k = map_get (zipBuffer s) k"
    and "map_get (zipQueue (gzip_done gz j s)) k = map_get (zipQueue s) k"
    and "map_get (items (base (gzip_done gz j s))) k = map_get (items (base s)) k"
    by simp_all
qed

lemma add_stores:
  assumes "is_value v"
  shows "\<exists>item. map_get (items (add k v b)) k = Some item \<and> item_value item = v"
  using assms by (auto simp: add_def schedulePrune_frame Let_def map_get_set_same)

lemma staged_jobs:
  assumes "staged k j t s"
  shows "(j, k, t) \<in> set (pending s)"
    and "\<forall>jb\<in>set (pending s). fst jb = j \<or> fst (snd jb) = k \<longrightarrow> jb = (j, k, t)"
proof -
  let ?P = "\<lambda>jb. fst jb = j \<or> fst (snd jb) = k"
  have f: "filter ?P (pending s) = [(j, k, t)]" using assms by (simp add: staged_def)
  have "(j, k, t) \<in> set (filter ?P (pending s))" unfolding f by simp
  then show "(j, k, t) \<in> set (pending s)" by simp
  show "\<forall>jb\<in>set (pending s). fst jb = j \<or> fst (snd jb) = k \<longrightarrow> jb = (j, k, t)"
  proof (intro ballI impI)
    fix jb assume "jb \<in> set (pending s)" "fst jb = j \<or> fst (snd jb) = k"
    then have "jb \<in> set (filter ?P (pending s))" by simp
    then show "jb = (j, k, t)" unfolding f by simp
  qed
qed

lemma staged_step:
  assumes st: "staged k j t s" and c: "cstep gz uz e s = Some (r, s')"
    and q: "no_addText k [e]" "no_done j [e]"
  shows "staged k j t s'"
proof (cases e)
  case (AddText k' v)
  then have ne: "k' \<noteq> k" using q(1) by (simp add: no_addText_def)
  have s': "s' = snd (addText_begin k' v s)" using c AddText by simp
  show ?thesis
    using st ne unfolding s' staged_def map_has_get addText_begin_other[OF ne]
    by auto
next
  case (GzipDone j')
  then have ne: "j' \<noteq> j" using q(2) by (simp add: no_done_def)
  have s': "s' = gzip_done gz j' s" using c GzipDone by simp
  have other: "\<forall>jb\<in>set (pending s). fst jb = j' \<longrightarrow> fst (snd jb) \<noteq> k"
    using staged_jobs(2)[OF st] ne by auto
  have "filter (\<lambda>jb. fst jb = j \<or> fst (snd jb) = k) (filter (\<lambda>jb. fst jb \<noteq> j') (pending s)) =
        filter (\<lambda>jb. fst jb \<noteq> j') (filter (\<lambda>jb. fst jb = j \<or> fst (snd jb) = k) (pending s))"
    by (simp add: conj_commute)
  also have "\<dots> = [(j, k, t)]" using st ne by (simp add: staged_def)
  finally show ?thesis
    using st unfolding s' staged_def map_has_get gzip_done_other[OF other] gzip_done_pending
      gzip_done_frame
    by simp
next
  case (GetZip k')
  then have s': "s' = snd (getZip k' s)" using c by (simp split: prod.splits)
  show ?thesis
    using st getZip_queue_has[of s k k'] unfolding s' staged_def getZip_frame by simp
next
  case (GetText k')
  then have s': "s' = snd (getText uz k' s)" using c by (simp split: prod.splits)
  from getText_state[of uz k' s] show ?thesis
  proof
    assume "snd (getText uz k' s) = s"
    then show ?thesis using st s' by simp
  next
    assume "snd (getText uz k' s) = snd (getZip k' s)"
    then have z: "s' = snd (getZip k' s)" using s' by simp
    show ?thesis
      using st getZip_queue_has[of s k k'] unfolding z staged_def getZip_frame by simp
  qed
next
  case (Base x)
  then obtain b where "s' = s\<lparr>base := b\<rparr>" using c by (auto split: option.splits)
  then show ?thesis using st by (simp add: staged_def)
qed


lemma staged_begin:
  assumes "t \<noteq> []" "jobs_ok s" "\<not> in_flight k s"
  shows "staged k (length (gzipCalls s)) t (snd (addText_begin k t s))"
proof -
  have "\<forall>jb\<in>set (pending s). \<not> (fst jb = length (gzipCalls s) \<or> fst (snd jb) = k)"
    using assms(2,3) by (auto simp: jobs_ok_def in_flight_def list_all_iff)
  then have "filter (\<lambda>jb. fst jb = length (gzipCalls s) \<or> fst (snd jb) = k) (pending s) = []"
    by (simp add: filter_empty_conv)
  then show ?thesis
    using assms(1)
    by (simp add: addText_begin_started staged_def map_get_set_same map_has_set_same)
qed

lemma staged_done:
  assumes st: "staged k j t s" and q: "map_get (zipQueue s) k = Some q" and z: "gz t = Some z"
  shows "settled (gzip_done gz j s) = settled s @ map (\<lambda>p. (p, Buf z)) q"
    and "rejected (gzip_done gz j s) = rejected s"
    and "base (gzip_done gz j s) = add k (Buf z) (base s)"
    and "\<not> map_has (zipQueue (gzip_done gz j s)) k"
    and "kept k (Buf z) (gzip_done gz j s)"
proof -
  let ?s1 = "s\<lparr>pending := filter (\<lambda>jb. fst jb \<noteq> j) (pending s)\<rparr>"
  have "find (\<lambda>jb. fst jb = j) (pending s) \<noteq> None"
    using staged_jobs(1)[OF st] by (auto simp: find_None_iff)
  then obtain jb where f: "find (\<lambda>jb. fst jb = j) (pending s) = Some jb" by blast
  then have "jb \<in> set (pending s)" "fst jb = j" by (auto simp: find_Some_iff)
  then have jb: "jb = (j, k, t)" using staged_jobs(2)[OF st] by blast
  have e: "addText_end gz k t ?s1 =
      (None, ?s1\<lparr>zipBuffer := map_delete (zipBuffer s) k,
                   zipQueue := map_delete (zipQueue s) k,
                   settled := settled s @ map (\<lambda>p. (p, Buf z)) q,
                   base := add k (Buf z) (base s)\<rparr>)"
    using q z by (simp add: addText_end_def endZip_def Let_def)
  have g: "gzip_done gz j s =
      ?s1\<lparr>zipBuffer := map_delete (zipBuffer s) k,
           zipQueue := map_delete (zipQueue s) k,
           settled := settled s @ map (\<lambda>p. (p, Buf z)) q,
           base := add k (Buf z) (base s)\<rparr>"
    using f e by (simp add: gzip_done_def jb Let_def)
  show "settled (gzip_done gz j s) = settled s @ map (\<lambda>p. (p, Buf z)) q"
    and "rejected (gzip_done gz j s) = rejected s"
    and "base (gzip_done gz j s) = add k (Buf z) (base s)"
    and "\<not> map_has (zipQueue (gzip_done gz j s)) k"
    unfolding g by (simp_all add: map_has_delete_same)
  have "\<forall>jb\<in>set (pending s). fst jb \<noteq> j \<longrightarrow> fst (snd jb) \<noteq> k"
    using staged_jobs(2)[OF st] by auto
  then have nf: "\<not> in_flight k (gzip_done gz j s)"
    unfolding g by (auto simp: in_flight_def)
  obtain item where "map_get (items (add k (Buf z) (base s))) k = Some item"
      "item_value item = Buf z"
    using add_stores[of "Buf z" k "base s"] by auto
  then show "kept k (Buf z) (gzip_done gz j s)"
    using nf unfolding kept_def g by (simp add: map_has_delete_same)
qed




lemma awaited_append: "awaited k (xs @ ys) = awaited k xs @ awaited k ys"
  by (induction k xs rule: awaited.induct) simp_all

lemma unqueued_append: "unqueued k (xs @ ys) = unqueued k xs @ unqueued k ys"
  by (induction k xs rule: unqueued.induct) simp_all

lemma awaited_one_other: "e \<noteq> GetZip k \<Longrightarrow> awaited k [(e, r)] = []"
  by (cases e; cases r) simp_all

lemma unqueued_one_other: "e \<noteq> GetZip k \<Longrightarrow> unqueued k [(e, r)] = []"
  by (cases e; cases r) simp_all

lemma prune_keys: "prune s = Some s' \<Longrightarrow> set (map fst (items s')) \<subseteq> set (map fst (items s))"
  using prune_items[of s s'] by auto

lemma fire_keys: "fireTimer h s = Some s' \<Longrightarrow> set (map fst (items s')) \<subseteq> set (map fst (items s))"
  using prune_keys[of "s\<lparr>timers := filter (\<lambda>t. fst t \<noteq> h) (timers s)\<rparr>" s']
  by (auto simp: fireTimer_def split: if_splits)

lemma fire_all_keys:
  "fold (\<lambda>h r. Option.bind r (fireTimer h)) hs (Some s) = Some s' \<Longrightarrow>
   set (map fst (items s')) \<subseteq> set (map fst (items s))"
proof (induction hs arbitrary: s)
  case Nil
  then show ?case by simp
next
  case (Cons h hs)
  show ?case
  proof (cases "fireTimer h s")
    case None
    have "fold (\<lambda>h r. Option.bind r (fireTimer h)) hs None = None"
      by (induction hs) simp_all
    with None Cons.prems show ?thesis by simp
  next
    case (Some s1)
    then have "set (map fst (items s')) \<subseteq> set (map fst (items s1))"
      using Cons by simp
    with fire_keys[OF Some] show ?thesis by blast
  qed
qed

lemma step_keeps_absent:
  assumes "\<not> map_has (items b) k" "step x b = Some b'" "\<forall>v. x \<noteq> Add k v"
  shows "\<not> map_has (items b') k"
proof (cases x)
  case (Add k' v)
  then have "k' \<noteq> k" using assms(3) by auto
  then show ?thesis using assms Add
    by (auto simp: map_has_get add_other_key)
next
  case (Get k' silent)
  have "items (snd (get k' silent b)) = items b"
    by (cases "map_has (items b) k'") (simp_all add: get_def emit_def split: option.splits)
  then show ?thesis using assms Get by auto
next
  case (Remove k')
  then show ?thesis using assms by (auto simp: remove_def map_delete_def map_has_def)
next
  case Clear
  then show ?thesis using assms by (auto simp: clear_def map_has_def)
next
  case (UpdatePolicy p)
  then show ?thesis using assms by (auto simp: updatePolicy_def schedulePrune_frame)
next
  case Prune
  then show ?thesis using assms prune_keys[of b b'] by (auto simp: map_has_def)
next
  case (Elapse d)
  then show ?thesis
    using assms fire_all_keys[of _ "b\<lparr>clock := clock b + d\<rparr>" b']
    by (auto simp: elapse_def Let_def map_has_def)
qed

lemma getZip_queues:
  assumes "\<not> map_has (items (base s)) k" "map_get (zipQueue s) k = Some q"
  shows "getZip k s =
           (Awaits (nextPromise s),
            s\<lparr>zipQueue := map_set (zipQueue s) k (q @ [nextPromise s]),
              nextPromise := Suc (nextPromise s)\<rparr>)"
  using assms by (simp add: getZip_def contains_is_has map_has_get)

lemma getZip_promise: "nextPromise s \<le> nextPromise (snd (getZip k s))"
  by (simp add: getZip_def split: option.splits prod.splits)

lemma cstep_promise:
  assumes "cstep gz uz e s = Some (r, s')"
  shows "nextPromise s \<le> nextPromise s'"
proof (cases e)
  case (GetText k')
  then have s': "s' = snd (getText uz k' s)" using assms by (simp split: prod.splits)
  from getText_state[of uz k' s] show ?thesis
    unfolding s' using getZip_promise[of s k'] by auto
next
  case (GetZip k')
  then have s': "s' = snd (getZip k' s)" using assms by (simp split: prod.splits)
  show ?thesis unfolding s' by (rule getZip_promise)
qed (use assms in \<open>auto simp: addText_begin_frame gzip_done_frame
       split: prod.splits option.splits\<close>)

lemma cstep_gzipCalls:
  assumes "cstep gz uz e s = Some (r, s')"
  shows "gzipCalls s' = gzipCalls s @ started [e]"
proof (cases e)
  case (AddText k v)
  then show ?thesis using assms by (auto simp: addText_begin_def beginZip_def)
next
  case (GetText k')
  then have s': "s' = snd (getText uz k' s)" using assms by (simp split: prod.splits)
  from getText_state[of uz k' s] show ?thesis
    unfolding s' using GetText by (auto simp: getZip_frame)
next
  case (GetZip k')
  then have s': "s' = snd (getZip k' s)" using assms by (simp split: prod.splits)
  show ?thesis unfolding s' using GetZip by (simp add: getZip_frame)
qed (use assms in \<open>auto simp: gzip_done_frame split: prod.splits option.splits\<close>)

lemma started_append: "started (xs @ ys) = started xs @ started ys"
  by (induction xs rule: started.induct) simp_all

lemma crun_gzipCalls:
  "crun gz uz evs s = Some (log, s') \<Longrightarrow> gzipCalls s' = gzipCalls s @ started evs"
proof (induction evs arbitrary: s log)
  case Nil
  then show ?case by simp
next
  case (Cons e es)
  from Cons.prems obtain r s1 log1 where
    c: "cstep gz uz e s = Some (r, s1)" and r: "crun gz uz es s1 = Some (log1, s')"
    by (auto split: option.splits prod.splits)
  have "started (e # es) = started [e] @ started es"
    using started_append[of "[e]" es] by simp
  then show ?case using cstep_gzipCalls[OF c] Cons.IH[OF r] by simp
qed

lemma waiting_step:
  assumes w: "waiting k j t q s" and c: "cstep gz uz e s = Some (r, s')"
    and qt: "no_addText k [e]" "no_done j [e]" "no_base_add k [e]"
    and lg: "lg = (case r of None \<Rightarrow> [] | Some res \<Rightarrow> [(e, res)])"
  shows "waiting k j t (q @ awaited k lg) s' \<and> unqueued k lg = [] \<and>
         (\<forall>p\<in>set (awaited k lg). p = nextPromise s \<and> p < nextPromise s')"
proof -
  have st: "staged k j t s" and zq: "map_get (zipQueue s) k = Some q"
    and ab: "\<not> map_has (items (base s)) k"
    using w by (simp_all add: waiting_def)
  have st': "staged k j t s'" using st c qt(1,2) by (rule staged_step)
  show ?thesis
  proof (cases e)
    case (AddText k' v)
    then have ne: "k' \<noteq> k" using qt(1) by (simp add: no_addText_def)
    have s': "s' = snd (addText_begin k' v s)" and r: "r = None" using c AddText by simp_all
    have lgv: "awaited k lg = []" "unqueued k lg = []" by (simp_all add: lg r)
    show ?thesis
      using st' zq ab unfolding lgv waiting_def s' addText_begin_other[OF ne] addText_begin_frame
      by simp
  next
    case (GzipDone j')
    then have ne: "j' \<noteq> j" using qt(2) by (simp add: no_done_def)
    have s': "s' = gzip_done gz j' s" and r: "r = None" using c GzipDone by simp_all
    have other: "\<forall>jb\<in>set (pending s). fst jb = j' \<longrightarrow> fst (snd jb) \<noteq> k"
      using staged_jobs(2)[OF st] ne by auto
    have lgv: "awaited k lg = []" "unqueued k lg = []" by (simp_all add: lg r)
    show ?thesis
      using st' zq ab unfolding lgv waiting_def s' map_has_get gzip_done_other[OF other]
      by simp
  next
    case (GetZip k')
    then have s': "s' = snd (getZip k' s)" and r: "r = Some (fst (getZip k' s))"
      using c by (simp_all split: prod.splits)
    show ?thesis
    proof (cases "k' = k")
      case True
      have g: "getZip k s =
           (Awaits (nextPromise s),
            s\<lparr>zipQueue := map_set (zipQueue s) k (q @ [nextPromise s]),
              nextPromise := Suc (nextPromise s)\<rparr>)"
        using ab zq by (rule getZip_queues)
      have lgv: "awaited k lg = [nextPromise s]" "unqueued k lg = []"
        by (simp_all add: lg r GetZip True g)
      show ?thesis
        using st' ab unfolding lgv waiting_def s' True g
        by (simp add: map_get_set_same)
    next
      case False
      then have ne: "e \<noteq> GetZip k" using GetZip by simp
      have lgv: "awaited k lg = []" "unqueued k lg = []"
        by (simp_all add: lg r awaited_one_other[OF ne] unqueued_one_other[OF ne])
      show ?thesis
        using st' zq ab
        unfolding lgv waiting_def s' getZip_base getZip_queue_other[OF False]
        by simp
    qed
  next
    case (GetText k')
    then have s': "s' = snd (getText uz k' s)" and r: "r = Some (fst (getText uz k' s))"
      using c by (simp_all split: prod.splits)
    have ne: "e \<noteq> GetZip k" using GetText by simp
    have same: "map_get (zipQueue s') k = Some q \<and> base s' = base s"
    proof (cases "k' = k")
      case True
      have "getText uz k s = (Settled (Str t), s)"
        using st by (intro getText_staged_now) (simp add: staged_def)
      then show ?thesis using zq unfolding s' True by simp
    next
      case False
      from getText_state[of uz k' s] show ?thesis
        unfolding s' using zq getZip_queue_other[OF False, of s] getZip_base[of k' s] by auto
    qed
    have lgv: "awaited k lg = []" "unqueued k lg = []"
      by (simp_all add: lg r awaited_one_other[OF ne] unqueued_one_other[OF ne])
    show ?thesis
      using st' ab same unfolding lgv waiting_def by simp
  next
    case (Base x)
    then obtain b where b: "step x (base s) = Some b" "s' = s\<lparr>base := b\<rparr>" "r = None"
      using c by (auto split: option.splits)
    have "\<forall>v. x \<noteq> Add k v" using qt(3) Base by (auto simp: no_base_add_def)
    then have "\<not> map_has (items b) k" using ab b(1) step_keeps_absent by blast
    moreover have "awaited k lg = []" "unqueued k lg = []" by (simp_all add: lg b(3))
    ultimately show ?thesis
      using st' zq unfolding waiting_def b(2) by simp
  qed
qed

lemma waiting_run:
  assumes "waiting k j t q s" "crun gz uz evs s = Some (log, s')"
    "no_addText k evs" "no_done j evs" "no_base_add k evs"
  shows "waiting k j t (q @ awaited k log) s' \<and> unqueued k log = [] \<and>
         nextPromise s \<le> nextPromise s' \<and>
         (\<forall>p\<in>set (awaited k log). nextPromise s \<le> p \<and> p < nextPromise s') \<and>
         sorted_wrt (<) (awaited k log)"
  using assms
proof (induction evs arbitrary: s log q)
  case Nil
  then show ?case by simp
next
  case (Cons e es)
  from Cons.prems(2) obtain r s1 log1 where
    c: "cstep gz uz e s = Some (r, s1)" and r: "crun gz uz es s1 = Some (log1, s')"
    and log: "log = (case r of None \<Rightarrow> [] | Some res \<Rightarrow> [(e, res)]) @ log1"
    by (auto split: option.splits prod.splits)
  let ?lg = "case r of None \<Rightarrow> [] | Some res \<Rightarrow> [(e, res)]"
  have one: "waiting k j t (q @ awaited k ?lg) s1 \<and> unqueued k ?lg = [] \<and>
         (\<forall>p\<in>set (awaited k ?lg). p = nextPromise s \<and> p < nextPromise s1)"
    using Cons.prems(1) c Cons.prems(3,4,5)
    by (intro waiting_step[of k j t q s gz uz e r s1])
       (simp_all add: no_addText_def no_done_def no_base_add_def)
  have mono: "nextPromise s \<le> nextPromise s1" using c by (rule cstep_promise)
  have rest: "waiting k j t ((q @ awaited k ?lg) @ awaited k log1) s' \<and> unqueued k log1 = [] \<and>
         nextPromise s1 \<le> nextPromise s' \<and>
         (\<forall>p\<in>set (awaited k log1). nextPromise s1 \<le> p \<and> p < nextPromise s') \<and>
         sorted_wrt (<) (awaited k log1)"
    using one r Cons.prems(3,4,5)
    by (intro Cons.IH) (simp_all add: no_addText_def no_done_def no_base_add_def)
  have single: "awaited k ?lg = [] \<or> (\<exists>p. awaited k ?lg = [p])"
  proof (cases r)
    case None
    then show ?thesis by simp
  next
    case (Some res)
    show ?thesis unfolding Some by (cases e; cases res) simp_all
  qed
  have cross: "\<forall>x\<in>set (awaited k ?lg). \<forall>y\<in>set (awaited k log1). x < y"
  proof (intro ballI)
    fix x y assume x: "x \<in> set (awaited k ?lg)" and y: "y \<in> set (awaited k log1)"
    from one x have "x < nextPromise s1" by blast
    moreover from rest y have "nextPromise s1 \<le> y" by blast
    ultimately show "x < y" by simp
  qed
  have srt: "sorted_wrt (<) (awaited k ?lg @ awaited k log1)"
    using single cross rest by (auto simp: sorted_wrt_append)
  have bnd: "\<forall>p\<in>set (awaited k ?lg @ awaited k log1). nextPromise s \<le> p \<and> p < nextPromise s'"
  proof
    fix p assume "p \<in> set (awaited k ?lg @ awaited k log1)"
    then consider "p \<in> set (awaited k ?lg)" | "p \<in> set (awaited k log1)" by auto
    then show "nextPromise s \<le> p \<and> p < nextPromise s'"
    proof cases
      case 1
      with one have "p = nextPromise s" "p < nextPromise s1" by blast+
      moreover from rest have "nextPromise s1 \<le> nextPromise s'" by blast
      ultimately show ?thesis by simp
    next
      case 2
      with rest have "nextPromise s1 \<le> p" "p < nextPromise s'" by blast+
      with mono show ?thesis by simp
    qed
  qed
  have w: "waiting k j t (q @ awaited k ?lg @ awaited k log1) s'" using rest by simp
  have u: "unqueued k ?lg @ unqueued k log1 = []" using one rest by simp
  have m: "nextPromise s \<le> nextPromise s'" using mono rest by simp
  show ?case
    unfolding log awaited_append unqueued_append
    using w u m bnd srt by blast
qed

lemma jobs_ok_step:
  assumes "jobs_ok s" "cstep gz uz e s = Some (r, s')"
  shows "jobs_ok s'"
proof -
  have g: "gzipCalls s' = gzipCalls s @ started [e]" using assms(2) by (rule cstep_gzipCalls)
  show ?thesis
  proof (cases e)
    case (AddText k v)
    then show ?thesis using assms
      by (force simp: jobs_ok_def addText_begin_def beginZip_def list_all_iff less_Suc_eq)
  next
    case (GzipDone j)
    then have "s' = gzip_done gz j s" using assms(2) by simp
    then show ?thesis using assms(1)
      by (auto simp: jobs_ok_def gzip_done_pending gzip_done_frame list_all_iff)
  next
    case (GetZip k)
    then have "s' = snd (getZip k s)" using assms(2) by (simp split: prod.splits)
    then show ?thesis using assms(1) by (simp add: jobs_ok_def getZip_frame)
  next
    case (GetText k)
    then have s': "s' = snd (getText uz k s)" using assms(2) by (simp split: prod.splits)
    from getText_state[of uz k s] show ?thesis
      unfolding s' using assms(1) by (auto simp: jobs_ok_def getZip_frame)
  next
    case (Base x)
    then show ?thesis using assms by (auto simp: jobs_ok_def split: option.splits)
  qed
qed

lemma jobs_ok_run: "jobs_ok s \<Longrightarrow> crun gz uz evs s = Some (log, s') \<Longrightarrow> jobs_ok s'"
proof (induction evs arbitrary: s log)
  case Nil
  then show ?case by simp
next
  case (Cons e es)
  from Cons.prems(2) obtain r s1 log1 where
    c: "cstep gz uz e s = Some (r, s1)" and r: "crun gz uz es s1 = Some (log1, s')"
    by (auto split: option.splits prod.splits)
  from jobs_ok_step[OF Cons.prems(1) c] Cons.IH[OF _ r] show ?case by simp
qed

lemma jobs_ok_reachable:
  "crun gz uz evs (new_ccache ld p now) = Some (log, s) \<Longrightarrow> jobs_ok s"
  by (rule jobs_ok_run[of "new_ccache ld p now"]) (simp_all add: jobs_ok_def new_ccache_def)

lemma ex_stored_reached:
  "gzip_done demo_gzip 0 (snd (addText_begin ''k'' ''old'' (new_ccache None defaultPolicy 0))) =
     ex_stored"
  by (simp add: addText_begin_def beginZip_def gzip_done_def addText_end_def endZip_def
        new_ccache_def ex_stored_def demo_gzip_def map_get_def map_delete_def Let_def)

section \<open>Properties of the cache\<close>

text \<open>
  C1. Take a well-formed store (every store that calls build from a new cache is one, by
  \<open>wf_reachable\<close>) in a cache that can measure sizes, with \<open>maxBytes = N > 0\<close>. The byte
  pass takes entries off the front of the working list, which is in ascending order of
  \<open>added\<close>, one at a time: it marks the first \<open>n\<close> of them, where after \<open>n\<close> the
  entries of the store that are not marked total at most \<open>N\<close> and after any fewer they
  total more than \<open>N\<close>. The loop ends, \<open>prune\<close> returns, it deletes exactly the marked
  entries, and what is left in the store totals at most \<open>N\<close>.
\<close>

theorem bytePass_removes_oldest_until_fit:
  assumes wf: "wf_store (items s)" and ms: "canMeasureSize s"
    and mx: "maxBytes (policy s) = Some N" "0 < N"
    and cp: "countPass s (agePass s (sorted_items s, [])) = (work, rm)"
  shows "sorted (map item_added work) \<and>
     (\<exists>n\<le>length work.
        bytePass s (work, rm) = Some (drop n work, rm @ map item_key (take n work)) \<and>
        totalSize (items s) (rm @ map item_key (take n work)) \<le> N \<and>
        (\<forall>j<n. N < totalSize (items s) (rm @ map item_key (take j work))) \<and>
        (\<exists>s'. prune s = Some s' \<and>
              items s' = filter (\<lambda>e. fst e \<notin> set (rm @ map item_key (take n work))) (items s) \<and>
              totalSize (items s') [] \<le> N))"
proof -
  have ok: "marks_ok s (work, rm)" using passes_ok(2)[OF wf] cp by simp
  from bytePass_spec[OF wf ok mx ms] obtain n where n: "n \<le> length work"
    "bytePass s (work, rm) = Some (drop n work, rm @ map item_key (take n work))"
    "totalSize (items s) (rm @ map item_key (take n work)) \<le> N"
    "\<forall>j<n. N < totalSize (items s) (rm @ map item_key (take j work))" by blast
  let ?ks = "rm @ map item_key (take n work)"
  from prune_from_passes[of s "drop n work" ?ks] n(2) cp
  obtain s' where s': "prune s = Some s'"
    "items s' = filter (\<lambda>e. fst e \<notin> set ?ks) (items s) \<or> items s = []" by auto
  then have it: "items s' = filter (\<lambda>e. fst e \<notin> set ?ks) (items s)"
    by (auto simp: prune_def cache_length_def)
  have "totalSize (items s') [] \<le> N"
    unfolding it using totalSize_after_delete[OF wf, of ?ks] n(3) by simp
  with s'(1) it n marks_ok_sorted[OF ok] show ?thesis by blast
qed

theorem bytePass_removes_oldest_until_fit_witness:
  "wf_store (items ex_bytes) \<and> canMeasureSize ex_bytes \<and>
   maxBytes (policy ex_bytes) = Some 5 \<and>
   countPass ex_bytes (agePass ex_bytes (sorted_items ex_bytes, [])) =
     (map snd (items ex_bytes), []) \<and>
   totalSize (items ex_bytes) [] = 9 \<and>
   bytePass ex_bytes (map snd (items ex_bytes), []) =
     Some ([snd (entry ''c'' 2 (Str ''cccc'') 4)], [''a'', ''b'']) \<and>
   (\<exists>n\<le>3.
      bytePass ex_bytes (map snd (items ex_bytes), []) =
        Some (drop n (map snd (items ex_bytes)),
              map item_key (take n (map snd (items ex_bytes)))) \<and>
      totalSize (items ex_bytes) (map item_key (take n (map snd (items ex_bytes)))) \<le> 5 \<and>
      (\<forall>j<n. 5 < totalSize (items ex_bytes) (map item_key (take j (map snd (items ex_bytes))))) \<and>
      (\<exists>s'. prune ex_bytes = Some s' \<and> totalSize (items s') [] \<le> 5))"
proof -
  have h1: "wf_store (items ex_bytes)" by code_simp
  have h2: "canMeasureSize ex_bytes" by (simp add: ex_bytes_def)
  have h3: "maxBytes (policy ex_bytes) = Some 5" by (simp add: ex_bytes_def)
  have h4: "countPass ex_bytes (agePass ex_bytes (sorted_items ex_bytes, [])) =
     (map snd (items ex_bytes), [])" by code_simp
  have e1: "totalSize (items ex_bytes) [] = 9" by code_simp
  have e2: "bytePass ex_bytes (map snd (items ex_bytes), []) =
     Some ([snd (entry ''c'' 2 (Str ''cccc'') 4)], [''a'', ''b''])" by code_simp
  have len: "length (map snd (items ex_bytes)) = 3" by (simp add: ex_bytes_def)
  from bytePass_removes_oldest_until_fit[OF h1 h2 h3 _ h4]
  show ?thesis using h1 h2 h3 h4 e1 e2 unfolding len by auto
qed

text \<open>
  C5. On a well-formed store, with \<open>maxItems = m > 0\<close> and more than \<open>m\<close> entries left
  by the age pass, the count pass marks the first \<open>n = length - m\<close> entries of the working
  list, which is in ascending order of \<open>added\<close>, and keeps the other \<open>m\<close>; no marked
  entry was added later than a kept one. \<open>prune\<close> then returns, deletes every marked key
  and makes one \<open>ItemsEvicted\<close> call with the marked keys; when no byte limit is set, the
  keys marked by the age and count passes are the whole list. The witness is the cache of
  the claim: \<open>{maxItems: 2}\<close>, three entries added at increasing times.
\<close>

theorem countPass_marks_oldest:
  assumes wf: "wf_store (items s)"
    and mi: "maxItems (policy s) = Some m" "0 < m"
    and ap: "agePass s (sorted_items s, []) = (work, rm)"
    and many: "m < int (length work)"
    and n: "n = nat (int (length work) - m)"
  shows "countPass s (work, rm) = (drop n work, rm @ map item_key (take n work)) \<and>
         0 < n \<and> length (take n work) = n \<and> int (length (drop n work)) = m \<and>
         (\<forall>a\<in>set (take n work). \<forall>b\<in>set (drop n work). item_added a \<le> item_added b) \<and>
         (\<exists>s' w ks. bytePass s (drop n work, rm @ map item_key (take n work)) = Some (w, ks) \<and>
            set (map item_key (take n work)) \<subseteq> set ks \<and>
            ((\<forall>mx. maxBytes (policy s) = Some mx \<longrightarrow> mx \<le> 0) \<longrightarrow>
               ks = rm @ map item_key (take n work)) \<and>
            prune s = Some s' \<and>
            items s' = filter (\<lambda>e. fst e \<notin> set ks) (items s) \<and>
            events s' = events s @
              [\<lparr>ev_type = ItemsEvicted, ev_payload = Keys ks, ev_store = items s'\<rparr>])"
proof -
  have dist: "distinct (map item_key (sorted_items s))" using wf by (rule distinct_sorted_keys)
  have ok: "marks_ok s (work, rm)" using passes_ok(1)[OF wf] ap by simp
  have npos: "0 < n" "n \<le> length work" "int (length work - n) = m"
    using many mi(2) n by simp_all
  have cp: "countPass s (work, rm) = (drop n work, rm @ map item_key (take n work))"
    using mi many n marks_take_filter[OF ok dist, of n]
    by (simp add: countPass_def Let_def)
  have ok2: "marks_ok s (drop n work, rm @ map item_key (take n work))"
    using ok dist by (rule marks_ok_take)
  have srt: "sorted (map item_added (take n work @ drop n work))"
    using marks_ok_sorted[OF ok] by simp
  have old: "\<forall>a\<in>set (take n work). \<forall>b\<in>set (drop n work). item_added a \<le> item_added b"
    using srt unfolding map_append sorted_append by auto
  from bytePass_returns[OF wf ok2] obtain j where
    bp: "bytePass s (drop n work, rm @ map item_key (take n work)) =
           Some (drop j (drop n work), (rm @ map item_key (take n work)) @
                 map item_key (take j (drop n work)))" by blast
  let ?ks = "(rm @ map item_key (take n work)) @ map item_key (take j (drop n work))"
  have ne: "?ks \<noteq> []" using npos by (cases work) auto
  have guard: "cache_length s > 0" "maxItems (policy s) \<noteq> Some 0"
    using many mi ok by (auto simp: cache_length_def marks_ok_def sorted_items_def map_values_def)
  have p: "prune s = Some (emit ItemsEvicted (Keys ?ks) (deleteAll ?ks s))"
    using guard bp ne unfolding prune_def ap cp by simp
  have nob: "(\<forall>mx. maxBytes (policy s) = Some mx \<longrightarrow> mx \<le> 0) \<longrightarrow>
               ?ks = rm @ map item_key (take n work)"
  proof
    assume "\<forall>mx. maxBytes (policy s) = Some mx \<longrightarrow> mx \<le> 0"
    then have "bytePass s (drop n work, rm @ map item_key (take n work)) =
        Some (drop n work, rm @ map item_key (take n work))"
      by (auto simp: bytePass_def split: option.splits)
    with bp have "Some (drop j (drop n work), ?ks) =
        Some (drop n work, rm @ map item_key (take n work))" by (simp only:)
    then have "snd (the (Some (drop j (drop n work), ?ks))) =
        snd (the (Some (drop n work, rm @ map item_key (take n work))))" by (simp only:)
    then show "?ks = rm @ map item_key (take n work)" by (simp only: option.sel snd_conv)
  qed
  have "\<exists>s' w ks. bytePass s (drop n work, rm @ map item_key (take n work)) = Some (w, ks) \<and>
            set (map item_key (take n work)) \<subseteq> set ks \<and>
            ((\<forall>mx. maxBytes (policy s) = Some mx \<longrightarrow> mx \<le> 0) \<longrightarrow>
               ks = rm @ map item_key (take n work)) \<and>
            prune s = Some s' \<and>
            items s' = filter (\<lambda>e. fst e \<notin> set ks) (items s) \<and>
            events s' = events s @
              [\<lparr>ev_type = ItemsEvicted, ev_payload = Keys ks, ev_store = items s'\<rparr>]"
  proof (intro exI conjI)
    show "bytePass s (drop n work, rm @ map item_key (take n work)) =
            Some (drop j (drop n work), ?ks)" by (rule bp)
    show "set (map item_key (take n work)) \<subseteq> set ?ks" by auto
    show "(\<forall>mx. maxBytes (policy s) = Some mx \<longrightarrow> mx \<le> 0) \<longrightarrow>
               ?ks = rm @ map item_key (take n work)" by (rule nob)
    show "prune s = Some (emit ItemsEvicted (Keys ?ks) (deleteAll ?ks s))" by (rule p)
    show "items (emit ItemsEvicted (Keys ?ks) (deleteAll ?ks s)) =
            filter (\<lambda>e. fst e \<notin> set ?ks) (items s)"
      by (rule emit_deleteAll)
    show "events (emit ItemsEvicted (Keys ?ks) (deleteAll ?ks s)) = events s @
              [\<lparr>ev_type = ItemsEvicted, ev_payload = Keys ?ks,
                ev_store = items (emit ItemsEvicted (Keys ?ks) (deleteAll ?ks s))\<rparr>]"
      by (simp only: emit_deleteAll)
  qed
  with cp npos old show ?thesis by simp
qed

theorem countPass_marks_oldest_witness:
  "run [Add ''a'' (Str ''x''), Elapse 1, Add ''b'' (Str ''y''), Elapse 1, Add ''c'' (Str ''z'')]
        (new_cache \<lparr>maxItems = Some 2, maxAge = None, maxBytes = None\<rparr> 0) = Some ex_count \<and>
   wf_store (items ex_count) \<and> maxItems (policy ex_count) = Some 2 \<and>
   agePass ex_count (sorted_items ex_count, []) = (map snd (items ex_count), []) \<and>
   2 < int (length (map snd (items ex_count))) \<and>
   countPass ex_count (map snd (items ex_count), []) =
     (map snd [entry ''b'' 1 (Str ''y'') 1, entry ''c'' 2 (Str ''z'') 1], [''a'']) \<and>
   (\<exists>s'. prune ex_count = Some s' \<and>
      items s' = [entry ''b'' 1 (Str ''y'') 1, entry ''c'' 2 (Str ''z'') 1] \<and>
      events s' = [\<lparr>ev_type = ItemsEvicted, ev_payload = Keys [''a''],
                    ev_store = [entry ''b'' 1 (Str ''y'') 1, entry ''c'' 2 (Str ''z'') 1]\<rparr>]) \<and>
   map_option events (elapse 10 ex_count) =
     Some [\<lparr>ev_type = ItemsEvicted, ev_payload = Keys [''a''],
                    ev_store = [entry ''b'' 1 (Str ''y'') 1, entry ''c'' 2 (Str ''z'') 1]\<rparr>]"
proof -
  have h1: "wf_store (items ex_count)" by code_simp
  have h2: "maxItems (policy ex_count) = Some 2" by (simp add: ex_count_def)
  have h3: "agePass ex_count (sorted_items ex_count, []) = (map snd (items ex_count), [])"
    by code_simp
  have h4: "2 < int (length (map snd (items ex_count)))" by (simp add: ex_count_def)
  have h5: "(1::nat) = nat (int (length (map snd (items ex_count))) - 2)"
    by (simp add: ex_count_def)
  have nb: "\<forall>mx. maxBytes (policy ex_count) = Some mx \<longrightarrow> mx \<le> 0" by (simp add: ex_count_def)
  have it: "items ex_count =
    [entry ''a'' 0 (Str ''x'') 1, entry ''b'' 1 (Str ''y'') 1, entry ''c'' 2 (Str ''z'') 1]"
    "events ex_count = []"
    by (simp_all add: ex_count_def)
  have el: "map_option events (elapse 10 ex_count) =
     Some [\<lparr>ev_type = ItemsEvicted, ev_payload = Keys [''a''],
                    ev_store = [entry ''b'' 1 (Str ''y'') 1, entry ''c'' 2 (Str ''z'') 1]\<rparr>]"
    by code_simp
  from countPass_marks_oldest[OF h1 h2 _ h3 h4 h5] nb
  show ?thesis using h1 h2 h3 h4 ex_count_reached el unfolding it
    by (auto simp: entry_def)
qed

text \<open>
  C6. \<open>prune\<close> on a well-formed store returns, and either it leaves the store and the
  list of \<open>emit\<close> calls as they were, or it has marked a non-empty list of distinct keys
  of the store, deleted exactly those entries, and then made one \<open>emit\<close> call,
  \<open>ItemsEvicted\<close> with that list, whose listeners find the store as it is after the
  deletions. The list is in the order of marking, which is oldest first: it is the keys
  of a prefix of the snapshot sorted by \<open>added\<close>.
\<close>

theorem prune_emits_after_delete:
  assumes wf: "wf_store (items s)"
  shows "\<exists>s'. prune s = Some s' \<and>
           ((items s' = items s \<and> events s' = events s) \<or>
            (\<exists>w ks. bytePass s (countPass s (agePass s (sorted_items s, []))) = Some (w, ks) \<and>
               ks \<noteq> [] \<and> distinct ks \<and> set ks \<subseteq> set (map fst (items s)) \<and>
               ks = map item_key (take (length ks) (sorted_items s)) \<and>
               items s' = filter (\<lambda>e. fst e \<notin> set ks) (items s) \<and>
               length (items s') < length (items s) \<and>
               events s' = events s @
                 [\<lparr>ev_type = ItemsEvicted, ev_payload = Keys ks, ev_store = items s'\<rparr>]))"
proof -
  from all_passes[OF wf] obtain w ks where
    bp: "bytePass s (countPass s (agePass s (sorted_items s, []))) = Some (w, ks)"
    and ok: "marks_ok s (w, ks)" by blast
  have ks: "distinct ks" "set ks \<subseteq> set (map fst (items s))"
    using ok sorted_keys_are_store_keys[OF wf] by (simp_all add: marks_ok_def)
  from passes_prefix[OF wf bp] obtain n where "ks = map item_key (take n (sorted_items s))"
    by blast
  then have pre: "ks = map item_key (take (length ks) (sorted_items s))"
    by (simp add: min_def)
  show ?thesis
  proof (cases "cache_length s > 0 \<and>
         (maxAge (policy s) \<noteq> Some 0 \<or> maxItems (policy s) \<noteq> Some 0 \<or>
          maxBytes (policy s) \<noteq> Some 0) \<and> ks \<noteq> []")
    case False
    then have "prune s = Some s" using bp by (auto simp: prune_def)
    then show ?thesis by simp
  next
    case True
    then have p: "prune s = Some (emit ItemsEvicted (Keys ks) (deleteAll ks s))"
      using bp by (simp add: prune_def)
    have "length (filter (\<lambda>e. fst e \<notin> set ks) (items s)) < length (items s)"
      using True ks(2) by (intro filter_keys_shrinks) simp_all
    then show ?thesis
      unfolding p using bp True ks pre
      by (simp add: emit_def deleteAll_items deleteAll_others)
  qed
qed

theorem prune_emits_after_delete_witness:
  "wf_store (items ex_bytes) \<and>
   (\<exists>s'. prune ex_bytes = Some s' \<and>
      items s' = [entry ''c'' 2 (Str ''cccc'') 4] \<and>
      events s' = [\<lparr>ev_type = ItemsEvicted, ev_payload = Keys [''a'', ''b''],
                    ev_store = [entry ''c'' 2 (Str ''cccc'') 4]\<rparr>]) \<and>
   wf_store (items (new_cache defaultPolicy 0)) \<and>
   (\<exists>s'. prune (new_cache defaultPolicy 0) = Some s' \<and> items s' = [] \<and> events s' = [])"
proof -
  have h1: "wf_store (items ex_bytes)" by code_simp
  have h2: "wf_store (items (new_cache defaultPolicy 0))" by code_simp
  from prune_emits_after_delete[OF h1] obtain s1 where s1: "prune ex_bytes = Some s1"
    by blast
  from prune_emits_after_delete[OF h2] obtain s2 where
    s2: "prune (new_cache defaultPolicy 0) = Some s2" by blast
  have "map_option items (prune ex_bytes) = Some [entry ''c'' 2 (Str ''cccc'') 4]"
    "map_option events (prune ex_bytes) =
       Some [\<lparr>ev_type = ItemsEvicted, ev_payload = Keys [''a'', ''b''],
                    ev_store = [entry ''c'' 2 (Str ''cccc'') 4]\<rparr>]"
    "map_option items (prune (new_cache defaultPolicy 0)) = Some []"
    "map_option events (prune (new_cache defaultPolicy 0)) = Some []"
    by code_simp+
  then show ?thesis using h1 h2 s1 s2 by simp
qed

text \<open>
  C2. Once \<open>canMeasureSize\<close> is false, every sequence of add, get, remove, clear,
  updatePolicy and prune calls (and of timers firing in between) runs to its end and leaves
  the flag false, and \<open>size\<close> then returns \<open>-1\<close>. An \<open>add\<close> of a value that
  \<open>byteSize\<close> cannot measure puts the cache in that state, whatever the state before.
\<close>

theorem unmeasurable_is_permanent:
  "(\<not> canMeasureSize s \<longrightarrow>
      (\<exists>s'. run ops s = Some s' \<and> \<not> canMeasureSize s' \<and> cache_size s' = - 1)) \<and>
   (is_value v \<and> byteSize v = - 1 \<longrightarrow>
      (\<exists>s'. run (Add k v # ops) s = Some s' \<and> \<not> canMeasureSize s' \<and> cache_size s' = - 1))"
proof (intro conjI impI)
  assume "\<not> canMeasureSize s"
  from run_unmeasurable[OF this, of ops]
  show "\<exists>s'. run ops s = Some s' \<and> \<not> canMeasureSize s' \<and> cache_size s' = - 1"
    by (auto simp: cache_size_def)
next
  assume "is_value v \<and> byteSize v = - 1"
  then have "\<not> canMeasureSize (add k v s)" by (simp add: add_flips)
  from run_unmeasurable[OF this, of ops]
  show "\<exists>s'. run (Add k v # ops) s = Some s' \<and> \<not> canMeasureSize s' \<and> cache_size s' = - 1"
    by (auto simp: cache_size_def)
qed

theorem unmeasurable_is_permanent_witness:
  "\<not> canMeasureSize ((new_cache defaultPolicy 0)\<lparr>canMeasureSize := False\<rparr>) \<and>
   (\<exists>s'. run [Add ''a'' (Str ''xy''), Prune]
           ((new_cache defaultPolicy 0)\<lparr>canMeasureSize := False\<rparr>) = Some s' \<and>
         \<not> canMeasureSize s' \<and> cache_size s' = - 1) \<and>
   is_value (Obj 0) \<and> byteSize (Obj 0) = - 1 \<and>
   (\<exists>s'. run [Add ''o'' (Obj 0), Add ''a'' (Str ''xy''), Clear, Prune]
           (new_cache defaultPolicy 0) = Some s' \<and>
         \<not> canMeasureSize s' \<and> cache_size s' = - 1)"
  using unmeasurable_is_permanent
          [of "(new_cache defaultPolicy 0)\<lparr>canMeasureSize := False\<rparr>"
              "[Add ''a'' (Str ''xy''), Prune]" "Obj 0" "''o''"]
        unmeasurable_is_permanent
          [of "new_cache defaultPolicy 0" "[Add ''a'' (Str ''xy''), Clear, Prune]" "Obj 0" "''o''"]
  by (simp add: new_cache_def)

text \<open>
  C3. The test \<open>add\<close> applies to a value is \<open>is.value\<close>: a value that fails it is not
  stored, one that passes is. So in every cache that calls build from a new one,
  \<open>contains(key, allowEmpty)\<close> is true exactly when the key is in the store and, for
  \<open>allowEmpty\<close> false, the stored value passes that test; a key whose stored value failed
  it would not count as contained.
\<close>

theorem contains_iff_stored_value:
  assumes "run ops (new_cache p now) = Some s"
  shows "contains k allowEmpty s =
           (\<exists>item. map_get (items s) k = Some item \<and>
                   (allowEmpty \<or> is_value (item_value item))) \<and>
         (\<forall>item. map_get (items s) k = Some item \<and> \<not> is_value (item_value item) \<longrightarrow>
                 \<not> contains k False s) \<and>
         (\<forall>v. \<not> is_value v \<longrightarrow> items (add k v s) = items s) \<and>
         (\<forall>v. is_value v \<longrightarrow>
              (\<exists>item. map_get (items (add k v s)) k = Some item \<and> item_value item = v))"
proof -
  have ok: "values_ok (items s)"
    by (rule values_ok_run[OF _ assms]) (simp add: new_cache_def values_ok_def)
  have a: "contains k allowEmpty s =
           (\<exists>item. map_get (items s) k = Some item \<and>
                   (allowEmpty \<or> is_value (item_value item)))"
  proof (cases "map_get (items s) k")
    case None
    then show ?thesis using map_get_None[of "items s" k] by (simp add: contains_is_has)
  next
    case (Some item)
    then have "map_has (items s) k" using map_get_None[of "items s" k] by auto
    then show ?thesis using Some values_ok_get[OF ok Some] by (simp add: contains_is_has)
  qed
  have b: "\<forall>item. map_get (items s) k = Some item \<and> \<not> is_value (item_value item) \<longrightarrow>
                 \<not> contains k False s"
    using values_ok_get[OF ok] by blast
  have c: "\<forall>v. \<not> is_value v \<longrightarrow> items (add k v s) = items s"
    by (simp add: add_def schedulePrune_frame)
  have d: "\<forall>v. is_value v \<longrightarrow>
              (\<exists>item. map_get (items (add k v s)) k = Some item \<and> item_value item = v)"
    by (auto simp: add_def schedulePrune_frame Let_def map_get_set_same)
  from a b c d show ?thesis by blast
qed

theorem contains_iff_stored_value_witness:
  "(\<exists>s. run [Add ''k'' (Str []), Add ''n'' Null, Add ''b'' (Buf ''xy'')] (new_cache defaultPolicy 0) = Some s \<and>
      contains ''k'' False s \<and> contains ''k'' True s \<and>
      map_option item_value (map_get (items s) ''k'') = Some (Str []) \<and>
      is_value (Str []) \<and>
      \<not> contains ''n'' False s \<and> \<not> contains ''n'' True s \<and>
      map_get (items s) ''n'' = None \<and> \<not> is_value Null \<and>
      contains ''b'' False s)"
proof -
  obtain s where s: "run [Add ''k'' (Str []), Add ''n'' Null, Add ''b'' (Buf ''xy'')]
      (new_cache defaultPolicy 0) = Some s" by simp
  have g: "map_option item_value (map_get (items s) ''k'') = Some (Str [])"
    "map_get (items s) ''n'' = None"
    "map_option item_value (map_get (items s) ''b'') = Some (Buf ''xy'')"
    using s by (auto simp: add_def schedulePrune_frame Let_def new_cache_def map_get_def)
  from contains_iff_stored_value[OF s, of "''k''" False]
       contains_iff_stored_value[OF s, of "''k''" True]
       contains_iff_stored_value[OF s, of "''n''" False]
       contains_iff_stored_value[OF s, of "''n''" True]
       contains_iff_stored_value[OF s, of "''b''" False]
  show ?thesis using s g by auto
qed

text \<open>
  C4. \<open>get\<close> of a key that is not in the store returns \<open>null\<close>; with \<open>silent\<close> false
  it makes exactly one \<open>emit\<close> call, \<open>KeyNotFound\<close> with that key, and with \<open>silent\<close>
  true it leaves the cache as it was. \<open>get\<close> of a key in the store returns the stored
  value and leaves the cache as it was. \<open>get\<close> has no failing branch.
\<close>

theorem get_absent_or_present:
  "(\<not> map_has (items s) k \<longrightarrow>
      get k silent s =
        (Null, if silent then s
               else s\<lparr>events := events s @
                      [\<lparr>ev_type = KeyNotFound, ev_payload = Key k, ev_store = items s\<rparr>]\<rparr>)) \<and>
   (map_get (items s) k = Some item \<longrightarrow> get k silent s = (item_value item, s))"
  using map_get_None[of "items s" k]
  by (auto simp: get_def emit_def)

theorem get_absent_or_present_witness:
  "\<not> map_has (items (new_cache defaultPolicy 5)) ''a'' \<and>
   fst (get ''a'' False (new_cache defaultPolicy 5)) = Null \<and>
   events (snd (get ''a'' False (new_cache defaultPolicy 5))) =
     [\<lparr>ev_type = KeyNotFound, ev_payload = Key ''a'', ev_store = []\<rparr>] \<and>
   get ''a'' True (new_cache defaultPolicy 5) = (Null, new_cache defaultPolicy 5) \<and>
   map_get (items (add ''a'' (Str ''v'') (new_cache defaultPolicy 5))) ''a'' =
     Some \<lparr>item_key = ''a'', item_added = 5, item_value = Str ''v'', item_size = 1\<rparr> \<and>
   get ''a'' False (add ''a'' (Str ''v'') (new_cache defaultPolicy 5)) =
     (Str ''v'', add ''a'' (Str ''v'') (new_cache defaultPolicy 5))"
proof -
  have absent: "\<not> map_has (items (new_cache defaultPolicy 5)) ''a''"
    by (simp add: new_cache_def map_has_def)
  have present: "map_get (items (add ''a'' (Str ''v'') (new_cache defaultPolicy 5))) ''a'' =
     Some \<lparr>item_key = ''a'', item_added = 5, item_value = Str ''v'', item_size = 1\<rparr>"
    by (simp add: add_def new_cache_def schedulePrune_def setTimeout_def map_get_def Let_def)
  show ?thesis
    using absent present
      get_absent_or_present [where s = "new_cache defaultPolicy 5" and k = "''a''"
        and silent = False]
      get_absent_or_present [where s = "new_cache defaultPolicy 5" and k = "''a''"
        and silent = True]
      get_absent_or_present [where s = "add ''a'' (Str ''v'') (new_cache defaultPolicy 5)"
        and k = "''a''" and silent = False
        and item = "\<lparr>item_key = ''a'', item_added = 5, item_value = Str ''v'', item_size = 1\<rparr>"]
    by (simp add: new_cache_def)
qed

text \<open>
  C9. Take a cache whose \<open>canMeasureSize\<close> is false and let any sequence of calls run on
  it. Then \<open>add\<close> of any value that is not \<open>null\<close> or \<open>undefined\<close>, a string or a
  Buffer included, stores the entry with size 0 without asking \<open>byteSize\<close>, and the byte
  pass of \<open>prune\<close>, before that \<open>add\<close> and after it, hands back \<open>(sorted, remove)\<close>
  untouched: it does not run.
\<close>

theorem add_after_flip_records_zero:
  assumes "\<not> canMeasureSize s" and "is_value v"
  shows "\<exists>s1. run ops s = Some s1 \<and>
           map_get (items (add k v s1)) k =
             Some \<lparr>item_key = k, item_added = clock s1, item_value = v, item_size = 0\<rparr> \<and>
           \<not> canMeasureSize (add k v s1) \<and>
           (\<forall>sr. bytePass s1 sr = Some sr) \<and> (\<forall>sr. bytePass (add k v s1) sr = Some sr)"
proof -
  from run_unmeasurable[OF assms(1), of ops]
  obtain s1 where s1: "run ops s = Some s1" "\<not> canMeasureSize s1" by blast
  have it: "map_get (items (add k v s1)) k =
           Some \<lparr>item_key = k, item_added = clock s1, item_value = v, item_size = 0\<rparr>"
    using s1(2) assms(2) by (simp add: add_def schedulePrune_frame map_get_set_same)
  from step_unmeasurable[OF s1(2), of "Add k v"]
  have fl: "\<not> canMeasureSize (add k v s1)" by simp
  have "\<forall>sr. bytePass s1 sr = Some sr"
    using s1(2) by (simp add: bytePass_def split: option.splits prod.splits)
  moreover have "\<forall>sr. bytePass (add k v s1) sr = Some sr"
    using fl by (simp add: bytePass_def split: option.splits prod.splits)
  ultimately show ?thesis using s1(1) it fl by blast
qed

theorem add_after_flip_records_zero_witness:
  "\<not> canMeasureSize (add ''o'' (Obj 7) (new_cache defaultPolicy 3)) \<and> is_value (Str ''hello'') \<and>
   byteSize (Str ''hello'') = 5 \<and>
   (\<exists>s1. run [UpdatePolicy \<lparr>maxItems = None, maxAge = None, maxBytes = Some 1\<rparr>, Elapse 10]
           (add ''o'' (Obj 7) (new_cache defaultPolicy 3)) = Some s1 \<and>
         map_get (items (add ''t'' (Str ''hello'') s1)) ''t'' =
           Some \<lparr>item_key = ''t'', item_added = clock s1, item_value = Str ''hello'',
                  item_size = 0\<rparr> \<and>
         (\<forall>sr. bytePass (add ''t'' (Str ''hello'') s1) sr = Some sr)) \<and>
   map_option clock
     (run [UpdatePolicy \<lparr>maxItems = None, maxAge = None, maxBytes = Some 1\<rparr>, Elapse 10]
        (add ''o'' (Obj 7) (new_cache defaultPolicy 3))) = Some 13"
proof -
  have flipped: "\<not> canMeasureSize (add ''o'' (Obj 7) (new_cache defaultPolicy 3))"
    by (simp add: add_def new_cache_def schedulePrune_frame)
  have clk: "map_option clock
     (run [UpdatePolicy \<lparr>maxItems = None, maxAge = None, maxBytes = Some 1\<rparr>, Elapse 10]
        (add ''o'' (Obj 7) (new_cache defaultPolicy 3))) = Some 13" by code_simp
  from add_after_flip_records_zero [where s = "add ''o'' (Obj 7) (new_cache defaultPolicy 3)"
        and v = "Str ''hello''" and k = "''t''"
        and ops = "[UpdatePolicy \<lparr>maxItems = None, maxAge = None, maxBytes = Some 1\<rparr>, Elapse 10]",
        OF flipped]
  obtain s1 where
    "run [UpdatePolicy \<lparr>maxItems = None, maxAge = None, maxBytes = Some 1\<rparr>, Elapse 10]
           (add ''o'' (Obj 7) (new_cache defaultPolicy 3)) = Some s1"
    "map_get (items (add ''t'' (Str ''hello'') s1)) ''t'' =
           Some \<lparr>item_key = ''t'', item_added = clock s1, item_value = Str ''hello'',
                  item_size = 0\<rparr>"
    "\<forall>sr. bytePass (add ''t'' (Str ''hello'') s1) sr = Some sr"
    by auto
  then show ?thesis using flipped clk by auto
qed

text \<open>
  C10. \<open>remove\<close> and \<open>clear\<close> change the \<open>items\<close> field and nothing else: the list of
  \<open>emit\<close> calls, the pending timeouts and \<open>evictTimer\<close> stay as they were, for a key in
  the store or not. \<open>get\<close> and \<open>prune\<close> leave the timeouts alone as well, while \<open>add\<close>
  and \<open>updatePolicy\<close> arm a new timeout ten milliseconds ahead. A timeout that is pending
  before \<open>remove\<close> or \<open>clear\<close> is pending after it, and when it fires, or when its time
  has passed, \<open>prune\<close> runs on the store they left.
\<close>

theorem remove_clear_touch_only_store:
  "remove k s = s\<lparr>items := items (remove k s)\<rparr> \<and>
   clear s = s\<lparr>items := items (clear s)\<rparr> \<and>
   events (remove k s) = events s \<and> timers (remove k s) = timers s \<and>
   evictTimer (remove k s) = evictTimer s \<and>
   events (clear s) = events s \<and> timers (clear s) = timers s \<and>
   evictTimer (clear s) = evictTimer s \<and>
   timers (snd (get k silent s)) = timers s \<and>
   evictTimer (snd (get k silent s)) = evictTimer s \<and>
   (prune s = Some s' \<longrightarrow> timers s' = timers s \<and> evictTimer s' = evictTimer s) \<and>
   evictTimer (add k v s) = Some (nextHandle s) \<and>
   (nextHandle s, clock s + 10) \<in> set (timers (add k v s)) \<and>
   evictTimer (updatePolicy p s) = Some (nextHandle s) \<and>
   (nextHandle s, clock s + 10) \<in> set (timers (updatePolicy p s)) \<and>
   (h \<in> set (map fst (timers s)) \<longrightarrow>
      fireTimer h (remove k s) =
        prune ((remove k s)\<lparr>timers := filter (\<lambda>t. fst t \<noteq> h) (timers s)\<rparr>) \<and>
      fireTimer h (clear s) =
        prune ((clear s)\<lparr>timers := filter (\<lambda>t. fst t \<noteq> h) (timers s)\<rparr>)) \<and>
   (timers s = [(h, due)] \<and> due \<le> clock s + d \<longrightarrow>
      elapse d (remove k s) = prune ((remove k s)\<lparr>clock := clock s + d, timers := []\<rparr>) \<and>
      elapse d (clear s) = prune ((clear s)\<lparr>clock := clock s + d, timers := []\<rparr>))"
proof -
  have arm_add: "evictTimer (add k v s) = Some (nextHandle s) \<and>
      (nextHandle s, clock s + 10) \<in> set (timers (add k v s))"
    by (simp add: add_def schedulePrune_def setTimeout_def clearTimeout_def Let_def
          split: option.splits prod.splits)
  have arm_upd: "evictTimer (updatePolicy p s) = Some (nextHandle s) \<and>
      (nextHandle s, clock s + 10) \<in> set (timers (updatePolicy p s))"
    by (simp add: updatePolicy_def schedulePrune_def setTimeout_def clearTimeout_def Let_def
          split: option.splits)
  have g: "timers (snd (get k silent s)) = timers s \<and>
      evictTimer (snd (get k silent s)) = evictTimer s"
    by (simp add: get_def emit_def split: option.splits)
  have pr: "prune s = Some s' \<longrightarrow> timers s' = timers s \<and> evictTimer s' = evictTimer s"
    using prune_timers by blast
  have el: "timers s = [(h, due)] \<and> due \<le> clock s + d \<longrightarrow>
      elapse d (remove k s) = prune ((remove k s)\<lparr>clock := clock s + d, timers := []\<rparr>) \<and>
      elapse d (clear s) = prune ((clear s)\<lparr>clock := clock s + d, timers := []\<rparr>)"
    using elapse_single[of "remove k s" h due d] elapse_single[of "clear s" h due d]
    by (simp add: remove_def clear_def)
  have fr: "remove k s = s\<lparr>items := items (remove k s)\<rparr> \<and>
   clear s = s\<lparr>items := items (clear s)\<rparr> \<and>
   events (remove k s) = events s \<and> timers (remove k s) = timers s \<and>
   evictTimer (remove k s) = evictTimer s \<and>
   events (clear s) = events s \<and> timers (clear s) = timers s \<and>
   evictTimer (clear s) = evictTimer s"
    by (simp add: remove_def clear_def)
  have fi: "h \<in> set (map fst (timers s)) \<longrightarrow>
      fireTimer h (remove k s) =
        prune ((remove k s)\<lparr>timers := filter (\<lambda>t. fst t \<noteq> h) (timers s)\<rparr>) \<and>
      fireTimer h (clear s) =
        prune ((clear s)\<lparr>timers := filter (\<lambda>t. fst t \<noteq> h) (timers s)\<rparr>)"
    by (simp add: remove_def clear_def fireTimer_def)
  from fr g pr arm_add arm_upd fi el show ?thesis by (simp only: simp_thms)
qed

theorem remove_clear_touch_only_store_witness:
  "3 \<in> set (map fst (timers ex_bytes)) \<and> timers ex_bytes = [(3, 12)] \<and> 12 \<le> clock ex_bytes + 10 \<and>
   prune ex_bytes \<noteq> None \<and>
   timers (the (prune ex_bytes)) = timers ex_bytes \<and>
   fireTimer 3 (remove ''b'' ex_bytes) = prune ((remove ''b'' ex_bytes)\<lparr>timers := []\<rparr>) \<and>
   elapse 10 (remove ''b'' ex_bytes) =
     prune ((remove ''b'' ex_bytes)\<lparr>clock := 12, timers := []\<rparr>) \<and>
   elapse 10 (clear ex_bytes) = prune ((clear ex_bytes)\<lparr>clock := 12, timers := []\<rparr>) \<and>
   map_option items (elapse 10 (remove ''b'' ex_bytes)) = Some [entry ''c'' 2 (Str ''cccc'') 4] \<and>
   map_option events (elapse 10 (remove ''b'' ex_bytes)) =
     Some [\<lparr>ev_type = ItemsEvicted, ev_payload = Keys [''a''],
            ev_store = [entry ''c'' 2 (Str ''cccc'') 4]\<rparr>]"
proof -
  have t: "timers ex_bytes = [(3, 12)]" "clock ex_bytes = 2" by (simp_all add: ex_bytes_def)
  have p: "prune ex_bytes \<noteq> None" by code_simp
  then obtain s' where s': "prune ex_bytes = Some s'" by blast
  have e: "map_option items (elapse 10 (remove ''b'' ex_bytes)) =
             Some [entry ''c'' 2 (Str ''cccc'') 4]"
    "map_option events (elapse 10 (remove ''b'' ex_bytes)) =
     Some [\<lparr>ev_type = ItemsEvicted, ev_payload = Keys [''a''],
            ev_store = [entry ''c'' 2 (Str ''cccc'') 4]\<rparr>]"
    by code_simp+
  show ?thesis
    using t e s' remove_clear_touch_only_store
      [where s = ex_bytes and k = "''b''" and h = 3 and due = 12 and d = 10 and s' = s']
    by simp
qed

section \<open>Properties of the compressing cache\<close>




text \<open>
  C8, as stated, fails for a key the store already holds: \<open>getZip\<close> looks in the store
  first, so while \<open>addText("k", "new")\<close> is compressing, \<open>getZip("k")\<close> resolves at once
  with the buffer stored earlier, pushes nothing on the queue, and that buffer is not the
  one the compression in flight produces. It fails as well when a second \<open>addText\<close> for
  the key starts during the first: \<open>beginZip\<close> replaces the queue, and the promise a
  \<open>getZip\<close> call was given before is never resolved.
\<close>

theorem getZip_in_flight_counterexample:
  "contains ''k'' False (base ex_stored) \<and>
   fst (addText_begin ''k'' ''new'' ex_stored) \<and>
   pending (snd (addText_begin ''k'' ''new'' ex_stored)) = [(1, ''k'', ''new'')] \<and>
   map_get (zipQueue (snd (addText_begin ''k'' ''new'' ex_stored))) ''k'' = Some [] \<and>
   getZip ''k'' (snd (addText_begin ''k'' ''new'' ex_stored)) =
     (Settled (Buf ''Zold''), snd (addText_begin ''k'' ''new'' ex_stored)) \<and>
   demo_gzip ''new'' = Some ''Znew'' \<and>
   map_option fst
     (crun demo_gzip demo_unzip
        [AddText ''k'' ''a'', GetZip ''k'', AddText ''k'' ''b'', GzipDone 0, GzipDone 1]
        (new_ccache None defaultPolicy 0)) =
     Some [(GetZip ''k'', Awaits 0)] \<and>
   map_option (settled \<circ> snd)
     (crun demo_gzip demo_unzip
        [AddText ''k'' ''a'', GetZip ''k'', AddText ''k'' ''b'', GzipDone 0, GzipDone 1]
        (new_ccache None defaultPolicy 0)) =
     Some []"
proof -
  have c: "contains ''k'' False (base ex_stored)"
    "get ''k'' False (base ex_stored) = (Buf ''Zold'', base ex_stored)"
    using contains_after_add[of "Buf ''Zold''" "''k''" "new_cache defaultPolicy 0"]
    by (simp_all add: ex_stored_def)
  have b: "addText_begin ''k'' ''new'' ex_stored =
      (True, ex_stored\<lparr>zipBuffer := [(''k'', ''new'')], zipQueue := [(''k'', [])],
                        gzipCalls := [''old'', ''new''], pending := [(1, ''k'', ''new'')]\<rparr>)"
    by (simp add: addText_begin_def beginZip_def ex_stored_def)
  have e: "map_option fst
     (crun demo_gzip demo_unzip
        [AddText ''k'' ''a'', GetZip ''k'', AddText ''k'' ''b'', GzipDone 0, GzipDone 1]
        (new_ccache None defaultPolicy 0)) =
     Some [(GetZip ''k'', Awaits 0)]"
    "map_option (settled \<circ> snd)
     (crun demo_gzip demo_unzip
        [AddText ''k'' ''a'', GetZip ''k'', AddText ''k'' ''b'', GzipDone 0, GzipDone 1]
        (new_ccache None defaultPolicy 0)) =
     Some []"
    by code_simp+
  show ?thesis
    using c e unfolding b by (simp add: getZip_def map_get_def demo_gzip_def)
qed

text \<open>
  C8, amended. Let \<open>k\<close> be a key the store does not hold and for which no call of
  \<open>gzip\<close> is pending when \<open>addText(k, t)\<close> starts, \<open>t\<close> not empty. Take any schedule in
  which that compression does not complete, no \<open>addText\<close> for \<open>k\<close> starts and the
  inherited \<open>add\<close> is not called for \<open>k\<close>. Then \<open>gzip\<close> has been called once for
  \<open>k\<close>, and otherwise only by the \<open>addText\<close> calls of the schedule; every \<open>getZip(k)\<close>
  call of the schedule was given a new promise that waits, and the queue of \<open>k\<close> holds
  those promises in call order. When the compression completes with buffer \<open>z\<close>, exactly
  those promises are resolved, each with \<open>z\<close>, in that order; \<open>addText\<close> is not rejected,
  the queue of \<open>k\<close> is dropped and \<open>getZip(k)\<close> now resolves at once with \<open>z\<close>. In any
  state whose store holds \<open>k\<close>, \<open>getZip(k)\<close> resolves at once with the stored value and
  changes nothing.
\<close>

theorem queued_getZips_resolve_in_order:
  assumes t: "t \<noteq> []" and ok: "jobs_ok s" and free: "\<not> in_flight k s"
    and fresh: "\<not> contains k False (base s)"
    and q: "no_addText k evs" "no_done (length (gzipCalls s)) evs" "no_base_add k evs"
    and r: "crun gz uz evs (snd (addText_begin k t s)) = Some (log, s2)"
    and z: "gz t = Some z"
  shows "gzipCalls (snd (addText_begin k t s)) = gzipCalls s @ [t] \<and>
         gzipCalls s2 = gzipCalls s @ t # started evs \<and>
         filter (\<lambda>jb. fst (snd jb) = k) (pending s2) = [(length (gzipCalls s), k, t)] \<and>
         unqueued k log = [] \<and>
         map_get (zipQueue s2) k = Some (awaited k log) \<and>
         sorted_wrt (<) (awaited k log) \<and>
         (\<forall>p\<in>set (awaited k log). nextPromise s \<le> p) \<and>
         settled (gzip_done gz (length (gzipCalls s)) s2) =
           settled s2 @ map (\<lambda>p. (p, Buf z)) (awaited k log) \<and>
         rejected (gzip_done gz (length (gzipCalls s)) s2) = rejected s2 \<and>
         gzipCalls (gzip_done gz (length (gzipCalls s)) s2) = gzipCalls s2 \<and>
         \<not> map_has (zipQueue (gzip_done gz (length (gzipCalls s)) s2)) k \<and>
         getZip k (gzip_done gz (length (gzipCalls s)) s2) =
           (Settled (Buf z), gzip_done gz (length (gzipCalls s)) s2) \<and>
         (\<forall>s' item. map_get (items (base s')) k = Some item \<longrightarrow>
              getZip k s' = (Settled (item_value item), s'))"
proof -
  let ?j = "length (gzipCalls s)"
  let ?s1 = "snd (addText_begin k t s)"
  let ?s3 = "gzip_done gz ?j s2"
  have g1: "gzipCalls ?s1 = gzipCalls s @ [t]" using t by (simp add: addText_begin_started)
  have g2: "gzipCalls s2 = gzipCalls s @ t # started evs"
    using crun_gzipCalls[OF r] g1 by simp
  have st1: "staged k ?j t ?s1" using t ok free by (rule staged_begin)
  have w1: "waiting k ?j t [] ?s1"
    using st1 fresh t
    by (simp add: waiting_def contains_is_has addText_begin_started map_get_set_same)
  have np: "nextPromise ?s1 = nextPromise s" by (simp add: addText_begin_frame)
  from waiting_run[OF w1 r q]
  have w2: "waiting k ?j t (awaited k log) s2" and uq: "unqueued k log = []"
    and fr: "\<forall>p\<in>set (awaited k log). nextPromise s \<le> p"
    and srt: "sorted_wrt (<) (awaited k log)"
    unfolding np by simp_all
  have st2: "staged k ?j t s2" and zq: "map_get (zipQueue s2) k = Some (awaited k log)"
    using w2 by (simp_all add: waiting_def)
  have f: "filter (\<lambda>jb. fst jb = ?j \<or> fst (snd jb) = k) (pending s2) = [(?j, k, t)]"
    using st2 by (simp add: staged_def)
  have "filter (\<lambda>jb. fst (snd jb) = k) (pending s2) =
        filter (\<lambda>jb. (fst jb = ?j \<or> fst (snd jb) = k) \<and> fst (snd jb) = k) (pending s2)"
    by (rule filter_cong) auto
  also have "\<dots> = filter (\<lambda>jb. fst (snd jb) = k)
                     (filter (\<lambda>jb. fst jb = ?j \<or> fst (snd jb) = k) (pending s2))"
    by simp
  also have "\<dots> = [(?j, k, t)]" unfolding f by simp
  finally have once: "filter (\<lambda>jb. fst (snd jb) = k) (pending s2) = [(?j, k, t)]" .
  note d = staged_done[where gz = gz and z = z, OF st2 zq z]
  from d(5) obtain item where i: "map_get (items (base ?s3)) k = Some item"
    "item_value item = Buf z" by (auto simp: kept_def)
  have gz3: "getZip k ?s3 = (Settled (Buf z), ?s3)" using getZip_stored[OF i(1)] i(2) by simp
  have gen: "\<forall>s' item. map_get (items (base s')) k = Some item \<longrightarrow>
              getZip k s' = (Settled (item_value item), s')"
    using getZip_stored by blast
  have g3: "gzipCalls ?s3 = gzipCalls s2" by (rule gzip_done_frame)
  from g1 g2 once uq zq srt fr d(1) d(2) g3 d(4) gz3 gen show ?thesis by blast
qed

theorem queued_getZips_resolve_in_order_witness:
  "''hello'' \<noteq> [] \<and> jobs_ok (new_ccache None defaultPolicy 0) \<and>
   \<not> in_flight ''k'' (new_ccache None defaultPolicy 0) \<and>
   \<not> contains ''k'' False (base (new_ccache None defaultPolicy 0)) \<and>
   no_addText ''k'' [GetZip ''k'', AddText ''o'' ''x'', GetZip ''o'', GetZip ''k'', GzipDone 1,
                     Base (Elapse 20), GetZip ''k''] \<and>
   no_done 0 [GetZip ''k'', AddText ''o'' ''x'', GetZip ''o'', GetZip ''k'', GzipDone 1,
              Base (Elapse 20), GetZip ''k''] \<and>
   no_base_add ''k'' [GetZip ''k'', AddText ''o'' ''x'', GetZip ''o'', GetZip ''k'', GzipDone 1,
                      Base (Elapse 20), GetZip ''k''] \<and>
   demo_gzip ''hello'' = Some ''Zhello'' \<and>
   (\<exists>log s2.
      crun demo_gzip demo_unzip
        [GetZip ''k'', AddText ''o'' ''x'', GetZip ''o'', GetZip ''k'', GzipDone 1,
         Base (Elapse 20), GetZip ''k'']
        (snd (addText_begin ''k'' ''hello'' (new_ccache None defaultPolicy 0))) = Some (log, s2) \<and>
      log = [(GetZip ''k'', Awaits 0), (GetZip ''o'', Awaits 1), (GetZip ''k'', Awaits 2),
             (GetZip ''k'', Awaits 3)] \<and>
      awaited ''k'' log = [0, 2, 3] \<and>
      gzipCalls s2 = [''hello'', ''x''] \<and>
      settled s2 = [(1, Buf ''Zx'')] \<and>
      settled (gzip_done demo_gzip 0 s2) =
        [(1, Buf ''Zx''), (0, Buf ''Zhello''), (2, Buf ''Zhello''), (3, Buf ''Zhello'')] \<and>
      rejected (gzip_done demo_gzip 0 s2) = [] \<and>
      getZip ''k'' (gzip_done demo_gzip 0 s2) =
        (Settled (Buf ''Zhello''), gzip_done demo_gzip 0 s2))"
proof -
  let ?s = "new_ccache None defaultPolicy 0"
  let ?evs = "[GetZip ''k'', AddText ''o'' ''x'', GetZip ''o'', GetZip ''k'', GzipDone 1,
               Base (Elapse 20), GetZip ''k'']"
  let ?run = "crun demo_gzip demo_unzip ?evs (snd (addText_begin ''k'' ''hello'' ?s))"
  have h1: "''hello'' \<noteq> []" by simp
  have h2: "jobs_ok ?s" "\<not> in_flight ''k'' ?s" "\<not> contains ''k'' False (base ?s)"
    by code_simp+
  have h3: "no_addText ''k'' ?evs" "no_done (length (gzipCalls ?s)) ?evs" "no_base_add ''k'' ?evs"
    by code_simp+
  have h4: "demo_gzip ''hello'' = Some ''Zhello''" by (simp add: demo_gzip_def)
  have j: "length (gzipCalls ?s) = 0" by (simp add: new_ccache_def)
  have g0: "gzipCalls ?s = []" by (simp add: new_ccache_def)
  have e: "map_option fst ?run =
      Some [(GetZip ''k'', Awaits 0), (GetZip ''o'', Awaits 1), (GetZip ''k'', Awaits 2),
            (GetZip ''k'', Awaits 3)]"
    "map_option (settled \<circ> snd) ?run = Some [(1, Buf ''Zx'')]"
    "map_option (rejected \<circ> snd) ?run = Some []"
    by code_simp+
  then obtain log s2 where r: "?run = Some (log, s2)"
    and lg: "log = [(GetZip ''k'', Awaits 0), (GetZip ''o'', Awaits 1), (GetZip ''k'', Awaits 2),
            (GetZip ''k'', Awaits 3)]"
    and st: "settled s2 = [(1, Buf ''Zx'')]" "rejected s2 = []"
    by (cases ?run) auto
  have aw: "awaited ''k'' log = [0, 2, 3]" unfolding lg by simp
  have sv: "started ?evs = [''x'']" by simp
  note c = queued_getZips_resolve_in_order[where gz = demo_gzip and uz = demo_unzip
      and t = "''hello''" and k = "''k''" and s = ?s and evs = ?evs and log = log and ?s2.0 = s2
      and z = "''Zhello''", OF h1 h2 h3 r h4, unfolded j g0 aw sv st]
  have c1: "gzipCalls s2 = [''hello'', ''x'']" using c by simp
  have c2: "settled (gzip_done demo_gzip 0 s2) =
        [(1, Buf ''Zx''), (0, Buf ''Zhello''), (2, Buf ''Zhello''), (3, Buf ''Zhello'')]"
    using c by simp
  have c3: "rejected (gzip_done demo_gzip 0 s2) = []" using c by simp
  have c4: "getZip ''k'' (gzip_done demo_gzip 0 s2) =
        (Settled (Buf ''Zhello''), gzip_done demo_gzip 0 s2)" using c by simp
  from h1 h2 h3 h4 r lg aw c1 st(1) c2 c3 c4 show ?thesis unfolding j by blast
qed

end
